theory Spec2Isabelle
  imports Main
begin

section \<open>JavaScript strings\<close>

text \<open>
  A JavaScript string is a sequence of UTF-16 code units. The model keeps the code units
  below 256, so a string is a \<open>char list\<close> and a \<open>char\<close> is read as the code unit
  with the same number (Latin-1).

  \<open>is_space\<close> is the class \<^verbatim>\<open>\s\<close> of a regular expression, which is also the set of
  code units that \<^verbatim>\<open>String.prototype.trim\<close> removes: TAB, LF, VT, FF, CR, SP and NBSP
  are its members below 256. \<open>is_word\<close> is the class \<^verbatim>\<open>\w\<close>: \<^verbatim>\<open>[A-Za-z0-9_]\<close>.
\<close>

definition is_space :: "char \<Rightarrow> bool" where
  "is_space c = (c \<in> set [CHR 0x09, CHR 0x0A, CHR 0x0B, CHR 0x0C, CHR 0x0D, CHR 0x20, CHR 0xA0])"

definition is_word :: "char \<Rightarrow> bool" where
  "is_word c = (let n = (of_char c :: nat) in
     (48 \<le> n \<and> n \<le> 57) \<or> (65 \<le> n \<and> n \<le> 90) \<or> n = 95 \<or> (97 \<le> n \<and> n \<le> 122))"

text \<open>\<^verbatim>\<open>s.trim()\<close>\<close>

definition trim :: "string \<Rightarrow> string" where
  "trim s = rev (dropWhile is_space (rev (dropWhile is_space s)))"

text \<open>
  \<^verbatim>\<open>s.substring(a, b)\<close> clamps both indices to the length and swaps them when
  \<open>a > b\<close>; \<^verbatim>\<open>s.substring(a)\<close> runs to the end of the string.
\<close>

definition substring :: "string \<Rightarrow> nat \<Rightarrow> nat \<Rightarrow> string" where
  "substring s a b =
     (let a' = min a (length s); b' = min b (length s)
      in take (max a' b' - min a' b') (drop (min a' b') s))"

definition substring_from :: "string \<Rightarrow> nat \<Rightarrow> string" where
  "substring_from s a = drop a s"

text \<open>
  \<^verbatim>\<open>s.toLowerCase()\<close> on code units below 256: the letters A-Z and the Latin-1
  capitals 0xC0-0xDE (0xD7, the multiplication sign, is no letter) move up by 32.
\<close>

definition lower_char :: "char \<Rightarrow> char" where
  "lower_char c = (let n = (of_char c :: nat) in
     if (65 \<le> n \<and> n \<le> 90) \<or> (192 \<le> n \<and> n \<le> 222 \<and> n \<noteq> 215)
     then char_of (n + 32) else c)"

definition toLowerCase :: "string \<Rightarrow> string" where
  "toLowerCase s = map lower_char s"

definition startsWith :: "string \<Rightarrow> string \<Rightarrow> bool" where
  "startsWith s k = (take (length k) s = k)"

section \<open>Regular expressions: a backtracking matcher\<close>

text \<open>
  The source's two regular expressions are matched by the backtracking semantics of
  ECMAScript. \<open>rmatch r st\<close> lists, in the order in which backtracking tries them, the
  states in which \<open>r\<close> can end when started in \<open>st\<close>; the head of the list is the match
  that JavaScript reports. A state is the rest of the input, the code unit before it (for
  \<^verbatim>\<open>\b\<close>) and the captures made so far, the latest first.

  \<^item> \<open>Chr P\<close>: one code unit of the class \<open>P\<close>;
  \<^item> \<open>Seq a b\<close>: \<open>a\<close> then \<open>b\<close>;
  \<^item> \<open>Star r\<close>: the greedy \<^verbatim>\<open>r*\<close>, \<open>LazyStar r\<close>: \<^verbatim>\<open>r*?\<close>, \<open>Opt r\<close>: the greedy
    \<^verbatim>\<open>r?\<close>; an iteration that consumes nothing is rejected, as ECMAScript does;
  \<^item> \<open>Group i r\<close>: the capturing group number \<open>i\<close>;
  \<^item> \<open>NegLook r\<close>: the negative lookahead \<^verbatim>\<open>(?!r)\<close>;
  \<^item> \<open>WordB\<close>: the word boundary \<^verbatim>\<open>\b\<close>.
\<close>

datatype rx =
    Chr "char \<Rightarrow> bool"
  | Eps
  | Seq rx rx
  | Star rx
  | LazyStar rx
  | Opt rx
  | Group nat rx
  | NegLook rx
  | WordB

record mstate =
  rest :: string
  prev :: "char option"
  caps :: "(nat \<times> string) list"

definition consumed :: "mstate \<Rightarrow> mstate \<Rightarrow> string" where
  "consumed st t = take (length (rest st) - length (rest t)) (rest st)"

definition advanced :: "mstate \<Rightarrow> mstate \<Rightarrow> bool" where
  "advanced st t = (length (rest t) < length (rest st))"

definition at_word :: "char option \<Rightarrow> bool" where
  "at_word p = (case p of None \<Rightarrow> False | Some c \<Rightarrow> is_word c)"

function rmatch :: "rx \<Rightarrow> mstate \<Rightarrow> mstate list" where
  "rmatch (Chr P) st =
     (case rest st of
        [] \<Rightarrow> []
      | c # cs \<Rightarrow> if P c then [st\<lparr>rest := cs, prev := Some c\<rparr>] else [])"
| "rmatch Eps st = [st]"
| "rmatch (Seq a b) st = concat (map (rmatch b) (rmatch a st))"
| "rmatch (Star r) st =
     concat (map (rmatch (Star r)) (filter (advanced st) (rmatch r st))) @ [st]"
| "rmatch (LazyStar r) st =
     st # concat (map (rmatch (LazyStar r)) (filter (advanced st) (rmatch r st)))"
| "rmatch (Opt r) st = filter (advanced st) (rmatch r st) @ [st]"
| "rmatch (Group i r) st =
     map (\<lambda>t. t\<lparr>caps := (i, consumed st t) # caps t\<rparr>) (rmatch r st)"
| "rmatch (NegLook r) st = (if rmatch r st = [] then [st] else [])"
| "rmatch WordB st =
     (if at_word (prev st) \<noteq> at_word (case rest st of [] \<Rightarrow> None | c # _ \<Rightarrow> Some c)
      then [st] else [])"
  by pat_completeness auto
termination
  by (relation "inv_image (less_than <*lex*> less_than) (\<lambda>(r, st). (size r, length (rest st)))")
     (auto simp: advanced_def)

declare rmatch.simps(4,5) [simp del]

definition lit :: "char \<Rightarrow> rx" where
  "lit c = Chr (\<lambda>x. x = c)"

definition seq :: "rx list \<Rightarrow> rx" where
  "seq rs = foldr Seq rs Eps"

text \<open>
  The match object of \<^verbatim>\<open>RegExp.prototype.exec\<close>: \<open>m_index\<close> is \<^verbatim>\<open>match.index\<close>,
  \<open>m_text\<close> is \<^verbatim>\<open>match[0]\<close> and \<open>match_group m i\<close> is \<^verbatim>\<open>match[i]\<close>, \<open>None\<close> for
  \<^verbatim>\<open>undefined\<close>. With the flag \<^verbatim>\<open>g\<close>, \<open>regex_exec r s lastIndex\<close> tries every start
  from \<open>lastIndex\<close> on, and \<open>match_end\<close> is the \<^verbatim>\<open>lastIndex\<close> that a successful call
  leaves in the expression.
\<close>

record regex_match =
  m_index :: nat
  m_text :: string
  m_groups :: "(nat \<times> string) list"

definition match_group :: "regex_match \<Rightarrow> nat \<Rightarrow> string option" where
  "match_group m i = map_of (m_groups m) i"

definition match_end :: "regex_match \<Rightarrow> nat" where
  "match_end m = m_index m + length (m_text m)"

fun search :: "rx \<Rightarrow> char option \<Rightarrow> string \<Rightarrow> nat \<Rightarrow> regex_match option" where
  "search r p s i =
     (let st = \<lparr>rest = s, prev = p, caps = []\<rparr> in
      case rmatch r st of
        t # _ \<Rightarrow> Some \<lparr>m_index = i, m_text = consumed st t, m_groups = caps t\<rparr>
      | [] \<Rightarrow> (case s of [] \<Rightarrow> None | c # cs \<Rightarrow> search r (Some c) cs (Suc i)))"

declare search.simps [simp del]

definition regex_exec :: "rx \<Rightarrow> string \<Rightarrow> nat \<Rightarrow> regex_match option" where
  "regex_exec r s lastIndex =
     (if length s < lastIndex then None
      else search r (if lastIndex = 0 then None else Some (s ! (lastIndex - 1)))
             (drop lastIndex s) lastIndex)"

subsection \<open>What a match consumes\<close>

lemma rmatch_suffix: "t \<in> set (rmatch r st) \<Longrightarrow> \<exists>u. rest st = u @ rest t"
proof (induction r st arbitrary: t rule: rmatch.induct)
  case (1 P st)
  then show ?case by (cases "rest st") (auto split: if_splits)
next
  case (3 a b st)
  then obtain m where m: "m \<in> set (rmatch a st)" and t: "t \<in> set (rmatch b m)" by auto
  from 3(1)[OF m] 3(2)[OF m t] show ?case by auto
next
  case (4 r st)
  from 4(3) have "t = st \<or> (\<exists>m \<in> set (rmatch r st). advanced st m \<and> t \<in> set (rmatch (Star r) m))"
    by (subst (asm) rmatch.simps(4)) auto
  then show ?case
  proof
    assume "t = st" then show ?thesis by simp
  next
    assume "\<exists>m \<in> set (rmatch r st). advanced st m \<and> t \<in> set (rmatch (Star r) m)"
    then obtain m where m: "m \<in> set (rmatch r st)" and a: "advanced st m"
      and t: "t \<in> set (rmatch (Star r) m)" by blast
    from m a have "m \<in> set (filter (advanced st) (rmatch r st))" by simp
    from 4(1)[OF m] 4(2)[OF this t] show ?thesis by auto
  qed
next
  case (5 r st)
  from 5(3) have "t = st \<or> (\<exists>m \<in> set (rmatch r st). advanced st m \<and> t \<in> set (rmatch (LazyStar r) m))"
    by (subst (asm) rmatch.simps(5)) auto
  then show ?case
  proof
    assume "t = st" then show ?thesis by simp
  next
    assume "\<exists>m \<in> set (rmatch r st). advanced st m \<and> t \<in> set (rmatch (LazyStar r) m)"
    then obtain m where m: "m \<in> set (rmatch r st)" and a: "advanced st m"
      and t: "t \<in> set (rmatch (LazyStar r) m)" by blast
    from m a have "m \<in> set (filter (advanced st) (rmatch r st))" by simp
    from 5(1)[OF m] 5(2)[OF this t] show ?thesis by auto
  qed
next
  case (6 r st)
  then show ?case by auto
next
  case (7 i r st)
  then show ?case by auto
next
  case (8 r st)
  then show ?case by (auto split: if_splits)
next
  case (9 st)
  then show ?case by (auto split: if_splits)
qed simp

lemma consumed_append: "rest st = u @ rest t \<Longrightarrow> consumed st t = u"
  by (simp add: consumed_def)

text \<open>
  \<open>run P st t u\<close>: from \<open>st\<close> to \<open>t\<close> the matcher consumed \<open>u\<close>, all of it in the class
  \<open>P\<close>, and captured nothing.
\<close>

definition run :: "(char \<Rightarrow> bool) \<Rightarrow> mstate \<Rightarrow> mstate \<Rightarrow> string \<Rightarrow> bool" where
  "run P st t u = (rest st = u @ rest t \<and> list_all P u \<and> caps t = caps st)"

lemma in_Chr:
  "t \<in> set (rmatch (Chr P) st) \<longleftrightarrow>
     (\<exists>c cs. rest st = c # cs \<and> P c \<and> t = st\<lparr>rest := cs, prev := Some c\<rparr>)"
  by (cases "rest st") auto

lemma in_Seq:
  "t \<in> set (rmatch (Seq a b) st) \<longleftrightarrow> (\<exists>m \<in> set (rmatch a st). t \<in> set (rmatch b m))"
  by auto

lemma in_Group:
  "t \<in> set (rmatch (Group i r) st) \<longleftrightarrow>
     (\<exists>m \<in> set (rmatch r st). t = m\<lparr>caps := (i, consumed st m) # caps m\<rparr>)"
  by auto

lemma run_Chr: "t \<in> set (rmatch (Chr P) st) \<Longrightarrow> \<exists>c. P c \<and> run P st t [c]"
  by (auto simp: in_Chr run_def)

lemma run_lit: "t \<in> set (rmatch (lit c) st) \<Longrightarrow> run (\<lambda>x. x = c) st t [c]"
  by (auto simp: lit_def in_Chr run_def)

lemma run_Star: "t \<in> set (rmatch (Star (Chr P)) st) \<Longrightarrow> \<exists>u. run P st t u"
proof (induction "length (rest st)" arbitrary: st rule: less_induct)
  case less
  from less.prems have "t = st \<or>
      (\<exists>m \<in> set (rmatch (Chr P) st). advanced st m \<and> t \<in> set (rmatch (Star (Chr P)) m))"
    by (subst (asm) rmatch.simps(4)) auto
  then show ?case
  proof
    assume "t = st"
    then have "run P st t []" by (simp add: run_def)
    then show ?thesis ..
  next
    assume "\<exists>m \<in> set (rmatch (Chr P) st). advanced st m \<and> t \<in> set (rmatch (Star (Chr P)) m)"
    then obtain m where m: "m \<in> set (rmatch (Chr P) st)" and a: "advanced st m"
      and t: "t \<in> set (rmatch (Star (Chr P)) m)" by blast
    from run_Chr[OF m] obtain c where c: "P c" "run P st m [c]" by blast
    from a have "length (rest m) < length (rest st)" by (simp add: advanced_def)
    from less.hyps[OF this t] obtain u where u: "run P m t u" by blast
    from c u have "run P st t (c # u)" by (simp add: run_def)
    then show ?thesis ..
  qed
qed

lemma run_LazyStar: "t \<in> set (rmatch (LazyStar (Chr P)) st) \<Longrightarrow> \<exists>u. run P st t u"
proof (induction "length (rest st)" arbitrary: st rule: less_induct)
  case less
  from less.prems have "t = st \<or>
      (\<exists>m \<in> set (rmatch (Chr P) st). advanced st m \<and> t \<in> set (rmatch (LazyStar (Chr P)) m))"
    by (subst (asm) rmatch.simps(5)) auto
  then show ?case
  proof
    assume "t = st"
    then have "run P st t []" by (simp add: run_def)
    then show ?thesis ..
  next
    assume "\<exists>m \<in> set (rmatch (Chr P) st). advanced st m \<and> t \<in> set (rmatch (LazyStar (Chr P)) m)"
    then obtain m where m: "m \<in> set (rmatch (Chr P) st)" and a: "advanced st m"
      and t: "t \<in> set (rmatch (LazyStar (Chr P)) m)" by blast
    from run_Chr[OF m] obtain c where c: "P c" "run P st m [c]" by blast
    from a have "length (rest m) < length (rest st)" by (simp add: advanced_def)
    from less.hyps[OF this t] obtain u where u: "run P m t u" by blast
    from c u have "run P st t (c # u)" by (simp add: run_def)
    then show ?thesis ..
  qed
qed

lemma run_Opt: "t \<in> set (rmatch (Opt (lit c)) st) \<Longrightarrow> \<exists>u. run (\<lambda>x. x = c) st t u"
proof -
  assume "t \<in> set (rmatch (Opt (lit c)) st)"
  then have "t = st \<or> t \<in> set (rmatch (lit c) st)" by auto
  then show ?thesis
  proof
    assume "t = st"
    then have "run (\<lambda>x. x = c) st t []" by (simp add: run_def)
    then show ?thesis ..
  next
    assume "t \<in> set (rmatch (lit c) st)"
    from run_lit[OF this] show ?thesis ..
  qed
qed

lemma run_mono: "run P st t u \<Longrightarrow> (\<And>x. P x \<Longrightarrow> Q x) \<Longrightarrow> run Q st t u"
  by (auto simp: run_def list_all_iff)

lemma run_trans: "run P st m u \<Longrightarrow> run P m t v \<Longrightarrow> run P st t (u @ v)"
  by (simp add: run_def)

lemma run_Group:
  assumes "t \<in> set (rmatch (Group i r) st)"
    and "\<And>m. m \<in> set (rmatch r st) \<Longrightarrow> \<exists>u. run P st m u"
  shows "\<exists>u. rest st = u @ rest t \<and> list_all P u \<and> caps t = (i, u) # caps st"
proof -
  from assms(1) obtain m where m: "m \<in> set (rmatch r st)"
    and t: "t = m\<lparr>caps := (i, consumed st m) # caps m\<rparr>" by (auto simp: in_Group)
  from assms(2)[OF m] obtain u where u: "run P st m u" by blast
  then have "consumed st m = u" by (simp add: run_def consumed_append)
  with u t show ?thesis by (auto simp: run_def)
qed

subsection \<open>What \<^verbatim>\<open>exec\<close> returns\<close>

lemma search_Some:
  "search r p s i = Some m \<Longrightarrow>
     \<exists>k q t ts. k \<le> length s \<and> m_index m = i + k \<and>
       rmatch r \<lparr>rest = drop k s, prev = q, caps = []\<rparr> = t # ts \<and>
       m_text m = consumed \<lparr>rest = drop k s, prev = q, caps = []\<rparr> t \<and>
       m_groups m = caps t"
proof (induction s arbitrary: p i)
  case Nil
  from Nil obtain t ts where r: "rmatch r \<lparr>rest = [], prev = p, caps = []\<rparr> = t # ts"
    and m: "m = \<lparr>m_index = i, m_text = consumed \<lparr>rest = [], prev = p, caps = []\<rparr> t, m_groups = caps t\<rparr>"
    by (subst (asm) search.simps) (auto simp: Let_def split: list.splits)
  from r have "rmatch r \<lparr>rest = drop 0 [], prev = p, caps = []\<rparr> = t # ts" by simp
  with m show ?case by (intro exI[of _ 0] exI[of _ p] exI[of _ t] exI[of _ ts]) simp
next
  case (Cons c cs)
  show ?case
  proof (cases "rmatch r \<lparr>rest = c # cs, prev = p, caps = []\<rparr>")
    case Nil
    with Cons.prems have "search r (Some c) cs (Suc i) = Some m"
      by (subst (asm) search.simps) (simp add: Let_def)
    from Cons.IH[OF this] obtain k q t ts where k: "k \<le> length cs" "m_index m = Suc i + k"
      "rmatch r \<lparr>rest = drop k cs, prev = q, caps = []\<rparr> = t # ts"
      "m_text m = consumed \<lparr>rest = drop k cs, prev = q, caps = []\<rparr> t"
      "m_groups m = caps t" by blast
    then show ?thesis by (intro exI[of _ "Suc k"] exI[of _ q] exI[of _ t] exI[of _ ts]) simp
  next
    case (Cons t ts)
    with Cons.prems
    have m: "m = \<lparr>m_index = i, m_text = consumed \<lparr>rest = c # cs, prev = p, caps = []\<rparr> t,
                  m_groups = caps t\<rparr>"
      by (subst (asm) search.simps) (simp add: Let_def)
    from Cons have "rmatch r \<lparr>rest = drop 0 (c # cs), prev = p, caps = []\<rparr> = t # ts" by simp
    with m show ?thesis by (intro exI[of _ 0] exI[of _ p] exI[of _ t] exI[of _ ts]) simp
  qed
qed

text \<open>
  The match that \<^verbatim>\<open>exec\<close> returns is the first one in the order of backtracking, at the
  first index that has one.
\<close>

lemma regex_exec_Some:
  assumes "regex_exec r s i = Some m"
  shows "\<exists>q t ts. i \<le> m_index m \<and> m_index m \<le> length s \<and>
       rmatch r \<lparr>rest = drop (m_index m) s, prev = q, caps = []\<rparr> = t # ts \<and>
       drop (m_index m) s = m_text m @ rest t \<and> m_groups m = caps t"
proof -
  from assms have le: "i \<le> length s"
    and "\<exists>p. search r p (drop i s) i = Some m"
    by (auto simp: regex_exec_def split: if_splits)
  then obtain p where "search r p (drop i s) i = Some m" by blast
  from search_Some[OF this] obtain k q t ts where k: "k \<le> length (drop i s)" "m_index m = i + k"
      "rmatch r \<lparr>rest = drop k (drop i s), prev = q, caps = []\<rparr> = t # ts"
      "m_text m = consumed \<lparr>rest = drop k (drop i s), prev = q, caps = []\<rparr> t"
      "m_groups m = caps t" by blast
  have d: "drop k (drop i s) = drop (m_index m) s" using k(2) by (simp add: add.commute)
  from k(3) have "t \<in> set (rmatch r \<lparr>rest = drop k (drop i s), prev = q, caps = []\<rparr>)" by simp
  from rmatch_suffix[OF this] obtain u where u: "drop k (drop i s) = u @ rest t" by auto
  then have "consumed \<lparr>rest = drop k (drop i s), prev = q, caps = []\<rparr> t = u"
    by (simp add: consumed_append)
  with k(4) u d have "drop (m_index m) s = m_text m @ rest t" by simp
  moreover from k(1,2) le have "i \<le> m_index m" "m_index m \<le> length s" by auto
  ultimately show ?thesis using k(3,5) d by auto
qed

lemma regex_exec_bounds:
  assumes "regex_exec r s i = Some m"
  shows "i \<le> m_index m" and "match_end m \<le> length s"
    and "drop (m_index m) s = m_text m @ drop (match_end m) s"
proof -
  from regex_exec_Some[OF assms] obtain t :: mstate where a: "i \<le> m_index m" "m_index m \<le> length s"
    and d: "drop (m_index m) s = m_text m @ rest t" by blast
  from a show "i \<le> m_index m" by simp
  from d have "length (drop (m_index m) s) = length (m_text m) + length (rest t)" by simp
  with a show e: "match_end m \<le> length s" by (simp add: match_end_def)
  have "drop (match_end m) s = drop (length (m_text m)) (drop (m_index m) s)"
    by (simp add: match_end_def add.commute)
  also have "\<dots> = rest t" by (simp add: d)
  finally show "drop (m_index m) s = m_text m @ drop (match_end m) s" using d by simp
qed

section \<open>The fence scan of \<^verbatim>\<open>formatAndDisplayAIResponse\<close>\<close>

text \<open>
  \<^verbatim>\<open>const codeBlockRegex = /```(\w*)\s*\n?([\s\S]*?)\n?\s*```/g;\<close>
\<close>

definition backtick :: char where
  "backtick = CHR 0x60"

definition codeBlockRegex :: rx where
  "codeBlockRegex = seq
     [lit backtick, lit backtick, lit backtick,
      Group 1 (Star (Chr is_word)),
      Star (Chr is_space),
      Opt (lit CHR 0x0A),
      Group 2 (LazyStar (Chr (\<lambda>c. is_space c \<or> \<not> is_space c))),
      Opt (lit CHR 0x0A),
      Star (Chr is_space),
      lit backtick, lit backtick, lit backtick]"

definition fence :: string where
  "fence = [backtick, backtick, backtick]"

text \<open>
  The expression after its first group, \<^verbatim>\<open>\s*\n?([\s\S]*?)\n?\s*```\<close>, for the proofs
  about the order of backtracking.
\<close>

definition codeBlockTail :: rx where
  "codeBlockTail = seq
     [Star (Chr is_space),
      Opt (lit CHR 0x0A),
      Group 2 (LazyStar (Chr (\<lambda>c. is_space c \<or> \<not> is_space c))),
      Opt (lit CHR 0x0A),
      Star (Chr is_space),
      lit backtick, lit backtick, lit backtick]"

lemma codeBlockRegex_split:
  "codeBlockRegex =
     Seq (lit backtick) (Seq (lit backtick) (Seq (lit backtick)
       (Seq (Group 1 (Star (Chr is_word))) codeBlockTail)))"
  by (simp add: codeBlockRegex_def codeBlockTail_def seq_def)

lemma codeBlockTail_shape:
  assumes "t \<in> set (rmatch codeBlockTail st)"
  shows "\<exists>ws g ws2. rest st = ws @ g @ ws2 @ fence @ rest t \<and>
           list_all is_space ws \<and> list_all is_space ws2 \<and> caps t = (2, g) # caps st"
proof -
  let ?any = "\<lambda>c. is_space c \<or> \<not> is_space c"
  have lf: "\<And>x. x = CHR 0x0A \<Longrightarrow> is_space x" by (simp add: is_space_def)
  from assms obtain s5 s6 s7 s8 s9 s10 s11 where
    m5: "s5 \<in> set (rmatch (Star (Chr is_space)) st)" and
    m6: "s6 \<in> set (rmatch (Opt (lit CHR 0x0A)) s5)" and
    m7: "s7 \<in> set (rmatch (Group 2 (LazyStar (Chr ?any))) s6)" and
    m8: "s8 \<in> set (rmatch (Opt (lit CHR 0x0A)) s7)" and
    m9: "s9 \<in> set (rmatch (Star (Chr is_space)) s8)" and
    m10: "s10 \<in> set (rmatch (lit backtick) s9)" and
    m11: "s11 \<in> set (rmatch (lit backtick) s10)" and
    m12: "t \<in> set (rmatch (lit backtick) s11)"
    unfolding codeBlockTail_def seq_def
    by (simp only: foldr.simps o_apply id_apply in_Seq rmatch.simps(2) list.set(1,2)
          singleton_iff bex_simps) blast
  from run_Star[OF m5] obtain a where a: "run is_space st s5 a" by blast
  from run_Opt[OF m6] obtain b where "run (\<lambda>x. x = CHR 0x0A) s5 s6 b" by blast
  then have b: "run is_space s5 s6 b" by (rule run_mono) (rule lf)
  from run_Group[OF m7, of ?any] run_LazyStar obtain g where
    g: "rest s6 = g @ rest s7" "caps s7 = (2, g) # caps s6" by blast
  from run_Opt[OF m8] obtain c where "run (\<lambda>x. x = CHR 0x0A) s7 s8 c" by blast
  then have c: "run is_space s7 s8 c" by (rule run_mono) (rule lf)
  from run_Star[OF m9] obtain d where d: "run is_space s8 s9 d" by blast
  note b10 = run_lit[OF m10] and b11 = run_lit[OF m11] and b12 = run_lit[OF m12]
  have ws: "rest st = (a @ b) @ rest s6" "list_all is_space (a @ b)" "caps s6 = caps st"
    using run_trans[OF a b] by (simp_all add: run_def)
  have ws2: "rest s7 = (c @ d) @ rest s9" "list_all is_space (c @ d)" "caps s9 = caps s7"
    using run_trans[OF c d] by (simp_all add: run_def)
  have closing: "rest s9 = fence @ rest t" "caps t = caps s9"
    using b10 b11 b12 by (simp_all add: run_def fence_def)
  have "rest st = (a @ b) @ g @ (c @ d) @ fence @ rest t"
    by (simp only: ws(1) g(1) ws2(1) closing(1) append_assoc)
  moreover have "caps t = (2, g) # caps st"
    by (simp only: closing(2) ws2(3) g(2) ws(3))
  ultimately show ?thesis using ws(2) ws2(2) by blast
qed

text \<open>
  The order of backtracking. A greedy star over a class tries its longest run first, so the
  first match of the whole expression, if there is one, gives group 1 the whole run of word
  characters after the opening fence: wherever a shorter run leads to a match, a closing
  fence follows, and then the longest run leads to one as well.
\<close>

lemma lit_Seq_Cons:
  "rmatch (Seq (lit c) b) st = t # ts \<Longrightarrow>
     \<exists>s1. rest st = c # rest s1 \<and> caps s1 = caps st \<and> rmatch b s1 = t # ts"
proof (cases "rest st")
  case Nil
  assume "rmatch (Seq (lit c) b) st = t # ts"
  with Nil show ?thesis by (simp add: lit_def)
next
  case (Cons x xs)
  assume "rmatch (Seq (lit c) b) st = t # ts"
  with Cons have "x = c" "rmatch b (st\<lparr>rest := xs, prev := Some x\<rparr>) = t # ts"
    by (auto simp: lit_def split: if_splits)
  with Cons show ?thesis
    by (intro exI[of _ "st\<lparr>rest := xs, prev := Some x\<rparr>"]) simp
qed

lemma Star_Chr_head:
  "\<exists>top others. rmatch (Star (Chr P)) st = top # others \<and>
     rest top = dropWhile P (rest st) \<and> caps top = caps st"
proof (induction "length (rest st)" arbitrary: st rule: less_induct)
  case less
  show ?case
  proof (cases "rest st")
    case Nil
    then have "rmatch (Star (Chr P)) st = [st]" by (subst rmatch.simps(4)) simp
    with Nil show ?thesis by simp
  next
    case (Cons x xs)
    show ?thesis
    proof (cases "P x")
      case True
      let ?st1 = "st\<lparr>rest := xs, prev := Some x\<rparr>"
      from Cons True have "rmatch (Star (Chr P)) st = rmatch (Star (Chr P)) ?st1 @ [st]"
        by (subst rmatch.simps(4)) (simp add: advanced_def)
      moreover from Cons have "length (rest ?st1) < length (rest st)" by simp
      from less.hyps[OF this] obtain top others where
        "rmatch (Star (Chr P)) ?st1 = top # others" "rest top = dropWhile P (rest ?st1)"
        "caps top = caps ?st1" by blast
      ultimately show ?thesis using Cons True by simp
    next
      case False
      with Cons have "rmatch (Star (Chr P)) st = [st]" by (subst rmatch.simps(4)) simp
      with Cons False show ?thesis by simp
    qed
  qed
qed

lemma Group_Star_head:
  "\<exists>top others. rmatch (Group i (Star (Chr P))) st = top # others \<and>
     rest top = dropWhile P (rest st) \<and> caps top = (i, takeWhile P (rest st)) # caps st"
proof -
  from Star_Chr_head[of P st] obtain top others where
    a: "rmatch (Star (Chr P)) st = top # others" "rest top = dropWhile P (rest st)"
       "caps top = caps st" by blast
  have "rest st = takeWhile P (rest st) @ rest top" by (simp add: a(2))
  then have "consumed st top = takeWhile P (rest st)" by (rule consumed_append)
  with a show ?thesis by simp
qed

text \<open>Where a fence follows, the tail of the expression matches.\<close>

lemma in_Star_self: "st \<in> set (rmatch (Star r) st)"
  by (subst rmatch.simps(4)) simp

lemma in_Opt_self: "st \<in> set (rmatch (Opt r) st)"
  by simp

lemma in_LazyStar_any:
  "rest st = u @ x \<Longrightarrow> \<forall>c. P c \<Longrightarrow> \<exists>t \<in> set (rmatch (LazyStar (Chr P)) st). rest t = x"
proof (induction u arbitrary: st)
  case Nil
  have "st \<in> set (rmatch (LazyStar (Chr P)) st)" by (subst rmatch.simps(5)) simp
  moreover from Nil(1) have "rest st = x" by simp
  ultimately show ?case by blast
next
  case (Cons c u)
  let ?st1 = "st\<lparr>rest := u @ x, prev := Some c\<rparr>"
  from Cons.prems have r: "rmatch (Chr P) st = [?st1]" by simp
  have "rest ?st1 = u @ x" by simp
  from Cons.IH[OF this Cons.prems(2)] obtain t where
    t: "t \<in> set (rmatch (LazyStar (Chr P)) ?st1)" "rest t = x" by blast
  from Cons.prems(1) have "advanced st ?st1" by (simp add: advanced_def)
  with r t(1) have "t \<in> set (rmatch (LazyStar (Chr P)) st)"
    by (subst rmatch.simps(5)) simp
  with t(2) show ?case by blast
qed

lemma in_lit: "rest st = c # xs \<Longrightarrow> st\<lparr>rest := xs, prev := Some c\<rparr> \<in> set (rmatch (lit c) st)"
  by (simp add: lit_def)

lemma codeBlockTail_complete:
  assumes "rest st = u @ fence @ v"
  shows "rmatch codeBlockTail st \<noteq> []"
proof -
  let ?any = "\<lambda>c. is_space c \<or> \<not> is_space c"
  from in_LazyStar_any[of st u "fence @ v" ?any] assms obtain t7 where
    t7: "t7 \<in> set (rmatch (LazyStar (Chr ?any)) st)" "rest t7 = fence @ v" by auto
  let ?s7 = "t7\<lparr>caps := (2, consumed st t7) # caps t7\<rparr>"
  from t7(1) have m7: "?s7 \<in> set (rmatch (Group 2 (LazyStar (Chr ?any))) st)"
    by (auto simp: in_Group)
  have r7: "rest ?s7 = backtick # backtick # backtick # v" using t7(2) by (simp add: fence_def)
  let ?s10 = "?s7\<lparr>rest := backtick # backtick # v, prev := Some backtick\<rparr>"
  let ?s11 = "?s10\<lparr>rest := backtick # v, prev := Some backtick\<rparr>"
  let ?s12 = "?s11\<lparr>rest := v, prev := Some backtick\<rparr>"
  from r7 have m10: "?s10 \<in> set (rmatch (lit backtick) ?s7)" by (rule in_lit)
  have m11: "?s11 \<in> set (rmatch (lit backtick) ?s10)" by (rule in_lit) simp
  have m12: "?s12 \<in> set (rmatch (lit backtick) ?s11)" by (rule in_lit) simp
  have "?s12 \<in> set (rmatch codeBlockTail st)"
    unfolding codeBlockTail_def seq_def
    apply (simp only: foldr.simps o_apply id_apply in_Seq rmatch.simps(2) list.set(1,2)
          singleton_iff bex_simps)
    apply (rule bexI[OF _ in_Star_self])
    apply (rule bexI[OF _ in_Opt_self])
    apply (rule bexI[OF _ m7])
    apply (rule bexI[OF _ in_Opt_self])
    apply (rule bexI[OF _ in_Star_self])
    apply (rule bexI[OF _ m10])
    apply (rule bexI[OF _ m11])
    apply (rule bexI[OF refl m12])
    done
  then show ?thesis by auto
qed

lemma dropWhile_keeps:
  "\<not> P c \<Longrightarrow> \<exists>u. dropWhile P (x @ c # v) = u @ c # v"
  by (induction x) auto

lemma codeBlockRegex_head:
  assumes "rmatch codeBlockRegex st = t # ts"
  shows "\<exists>ws g ws2.
           rest st = fence @ takeWhile is_word (drop 3 (rest st)) @ ws @ g @ ws2 @ fence @ rest t \<and>
           list_all is_space ws \<and> list_all is_space ws2 \<and>
           caps t = (2, g) # (1, takeWhile is_word (drop 3 (rest st))) # caps st"
proof -
  let ?G = "Group 1 (Star (Chr is_word))"
  from lit_Seq_Cons[OF assms[unfolded codeBlockRegex_split]]
  obtain s1 :: mstate where s1: "rest st = backtick # rest s1" "caps s1 = caps st"
    and r1: "rmatch (Seq (lit backtick) (Seq (lit backtick) (Seq ?G codeBlockTail))) s1 = t # ts"
    by blast
  from lit_Seq_Cons[OF r1] obtain s2 :: mstate where
    s2: "rest s1 = backtick # rest s2" "caps s2 = caps s1"
    and r2: "rmatch (Seq (lit backtick) (Seq ?G codeBlockTail)) s2 = t # ts" by blast
  from lit_Seq_Cons[OF r2] obtain s3 :: mstate where
    s3: "rest s2 = backtick # rest s3" "caps s3 = caps s2"
    and r3: "rmatch (Seq ?G codeBlockTail) s3 = t # ts" by blast
  define x3 where "x3 = rest s3"
  have front: "rest st = fence @ x3" "rest s3 = x3" "caps s3 = caps st" "drop 3 (rest st) = x3"
    by (simp_all add: s1 s2 s3 x3_def fence_def)
  from Group_Star_head[of 1 is_word s3, unfolded front(2,3)] obtain top others where
    g: "rmatch ?G s3 = top # others" "rest top = dropWhile is_word x3"
       "caps top = (1, takeWhile is_word x3) # caps st" by blast
  have seq: "rmatch (Seq ?G codeBlockTail) s3 =
      rmatch codeBlockTail top @ concat (map (rmatch codeBlockTail) others)"
    by (simp only: rmatch.simps(3) g(1) list.map concat.simps)
  have "rmatch codeBlockTail top \<noteq> []"
  proof -
    from r3 have "t \<in> set (rmatch (Seq ?G codeBlockTail) s3)" by simp
    then obtain m where m: "m \<in> set (rmatch ?G s3)" and tm: "t \<in> set (rmatch codeBlockTail m)"
      by (auto simp only: in_Seq)
    from run_Group[OF m, of is_word] run_Star obtain w where w: "rest s3 = w @ rest m" by blast
    from codeBlockTail_shape[OF tm] obtain ws g ws2 where
      "rest m = ws @ g @ ws2 @ fence @ rest t" by blast
    with w have "x3 = (w @ ws @ g @ ws2) @ backtick # (backtick # backtick # rest t)"
      by (simp add: fence_def x3_def)
    moreover have "\<not> is_word backtick" by (simp add: is_word_def backtick_def)
    ultimately obtain u where "dropWhile is_word x3 = u @ backtick # (backtick # backtick # rest t)"
      using dropWhile_keeps[of is_word backtick "w @ ws @ g @ ws2" "backtick # backtick # rest t"]
      by auto
    then have "rest top = u @ fence @ rest t" by (simp add: g(2) fence_def)
    then show ?thesis by (rule codeBlockTail_complete)
  qed
  then obtain t' ts' where "rmatch codeBlockTail top = t' # ts'" by (cases "rmatch codeBlockTail top") auto
  with r3 seq have "t \<in> set (rmatch codeBlockTail top)" by simp
  from codeBlockTail_shape[OF this] obtain ws g ws2 where
    tl: "rest top = ws @ g @ ws2 @ fence @ rest t" "list_all is_space ws" "list_all is_space ws2"
      "caps t = (2, g) # caps top" by blast
  have "x3 = takeWhile is_word x3 @ rest top" by (simp add: g(2))
  with tl(1) have "x3 = takeWhile is_word x3 @ ws @ g @ ws2 @ fence @ rest t" by simp
  then have "rest st = fence @ takeWhile is_word x3 @ ws @ g @ ws2 @ fence @ rest t"
    using front(1) by simp
  with tl g(3) front(4) show ?thesis by auto
qed

lemma codeBlockRegex_exec_tag:
  assumes "regex_exec codeBlockRegex s i = Some m"
  shows "\<exists>w ws g ws2. m_text m = fence @ w @ ws @ g @ ws2 @ fence \<and>
           list_all is_word w \<and> list_all is_space ws \<and> list_all is_space ws2 \<and>
           m_groups m = [(2, g), (1, w)] \<and>
           w = takeWhile is_word (drop 3 (m_text m))"
proof -
  from regex_exec_Some[OF assms] obtain q t ts where
    t: "rmatch codeBlockRegex \<lparr>rest = drop (m_index m) s, prev = q, caps = []\<rparr> = t # ts"
    and d: "drop (m_index m) s = m_text m @ rest t" and c: "m_groups m = caps t" by blast
  define w where "w = takeWhile is_word (drop 3 (drop (m_index m) s))"
  from codeBlockRegex_head[OF t]
  have "\<exists>ws g ws2. drop (m_index m) s = fence @ w @ ws @ g @ ws2 @ fence @ rest t \<and>
      list_all is_space ws \<and> list_all is_space ws2 \<and> caps t = [(2, g), (1, w)]"
    unfolding w_def by (simp only: mstate.select_convs)
  then obtain ws g ws2 where
    sh: "drop (m_index m) s = fence @ w @ ws @ g @ ws2 @ fence @ rest t"
      "list_all is_space ws" "list_all is_space ws2" "caps t = [(2, g), (1, w)]"
    by blast
  from sh(1) d have "m_text m @ rest t = (fence @ w @ ws @ g @ ws2 @ fence) @ rest t" by simp
  then have mt: "m_text m = fence @ w @ ws @ g @ ws2 @ fence" by (simp only: append_same_eq)
  have ww: "list_all is_word w" unfolding w_def by (auto simp: list_all_iff dest: set_takeWhileD)
  have "\<not> is_word backtick" by (simp add: is_word_def backtick_def)
  moreover have "backtick \<in> set (drop 3 (m_text m))" by (simp add: mt fence_def)
  ultimately have "takeWhile is_word (drop 3 (m_text m) @ rest t) = takeWhile is_word (drop 3 (m_text m))"
    by (intro takeWhile_append1) auto
  moreover have "drop 3 (drop (m_index m) s) = drop 3 (m_text m) @ rest t"
    by (simp add: d mt fence_def)
  ultimately have "w = takeWhile is_word (drop 3 (m_text m))" by (simp add: w_def)
  with mt ww sh(2,3,4) c show ?thesis by auto
qed

lemma codeBlockRegex_exec:
  assumes "regex_exec codeBlockRegex s i = Some m"
  shows "\<exists>w ws g ws2. m_text m = fence @ w @ ws @ g @ ws2 @ fence \<and>
           list_all is_word w \<and> list_all is_space ws \<and> list_all is_space ws2 \<and>
           m_groups m = [(2, g), (1, w)]"
  using codeBlockRegex_exec_tag[OF assms] by blast

lemma codeBlockRegex_progress:
  assumes "regex_exec codeBlockRegex s i = Some m"
  shows "i < match_end m" and "match_end m \<le> length s"
proof -
  from codeBlockRegex_exec[OF assms] have "0 < length (m_text m)" by (auto simp: fence_def)
  with regex_exec_bounds(1)[OF assms] show "i < match_end m" unfolding match_end_def by arith
  from regex_exec_bounds(2)[OF assms] show "match_end m \<le> length s" .
qed

text \<open>
  What \<^verbatim>\<open>formatAndDisplayAIResponse\<close> appends to the message bubble, in order:
  \<^item> \<open>Prose t\<close>: a \<^verbatim>\<open>div.markdown-content\<close> whose \<^verbatim>\<open>innerHTML\<close> is
    \<^verbatim>\<open>parseMarkdown(t)\<close>;
  \<^item> \<open>Code lang c\<close>: a \<^verbatim>\<open>pre.language-lang\<close> holding a \<^verbatim>\<open>code\<close> element with the
    text \<open>c\<close> (and its copy button);
  \<^item> \<open>Image src alt\<close>: an \<^verbatim>\<open>img.generated-image\<close> (appended by the image path, never
    by the fence scan).

  A thrown value is an \<^verbatim>\<open>Error\<close> object with its message, or anything else.
\<close>

datatype segment = Prose string | Code string string | Image string string

datatype js_error = JsError string | NonError

text \<open>
  The \<^verbatim>\<open>TypeError\<close> of reading the property \<open>prop\<close> of \<^verbatim>\<open>undefined\<close>, with the
  message that V8 gives it (other engines word it differently).
\<close>

definition type_error :: "string \<Rightarrow> js_error" where
  "type_error prop =
     JsError (''Cannot read properties of undefined (reading '' @ [CHR 0x27] @ prop @ [CHR 0x27] @ '')'')"

text \<open>
  \<^verbatim>\<open>const textContent = text.trim(); if (textContent) { ...appendChild(div); contentAdded = true; }\<close>
  and the same for a code block; the pair is \<^verbatim>\<open>contentAdded\<close> and the children of
  \<^verbatim>\<open>messageDiv\<close>.
\<close>

definition add_prose :: "string \<Rightarrow> bool \<times> segment list \<Rightarrow> bool \<times> segment list" where
  "add_prose text acc =
     (let textContent = trim text
      in if textContent \<noteq> [] then (True, snd acc @ [Prose textContent]) else acc)"

definition add_code :: "string \<Rightarrow> string \<Rightarrow> bool \<times> segment list \<Rightarrow> bool \<times> segment list" where
  "add_code language codeContent acc =
     (if codeContent \<noteq> [] then (True, snd acc @ [Code language codeContent]) else acc)"

text \<open>\<^verbatim>\<open>match[1]?.trim() || 'plaintext'\<close>\<close>

definition language_of :: "regex_match \<Rightarrow> string" where
  "language_of m =
     (case match_group m 1 of
        None \<Rightarrow> ''plaintext''
      | Some g \<Rightarrow> if trim g = [] then ''plaintext'' else trim g)"

text \<open>
  The \<^verbatim>\<open>while ((match = codeBlockRegex.exec(fullText)) !== null)\<close> loop. It returns
  \<^verbatim>\<open>lastIndex\<close> and the accumulated pair, or the \<^verbatim>\<open>TypeError\<close> of
  \<^verbatim>\<open>match[2].trim()\<close> on an undefined group.
\<close>

function scan_blocks ::
  "string \<Rightarrow> nat \<Rightarrow> bool \<times> segment list \<Rightarrow> js_error + nat \<times> bool \<times> segment list" where
  "scan_blocks fullText lastIndex acc =
     (case regex_exec codeBlockRegex fullText lastIndex of
        None \<Rightarrow> Inr (lastIndex, acc)
      | Some m \<Rightarrow>
          (let acc1 = (if lastIndex < m_index m
                       then add_prose (substring fullText lastIndex (m_index m)) acc
                       else acc)
           in case match_group m 2 of
                None \<Rightarrow> Inl (type_error ''trim'')
              | Some g2 \<Rightarrow>
                  scan_blocks fullText (match_end m) (add_code (language_of m) (trim g2) acc1)))"
  by pat_completeness auto
termination
proof (relation "measure (\<lambda>(fullText, lastIndex, acc). length fullText - lastIndex)")
  show "wf (measure (\<lambda>(fullText, lastIndex, acc). length fullText - lastIndex))" by simp
next
  fix fullText :: string and lastIndex :: nat and acc :: "bool \<times> segment list"
    and m acc1 g2
  assume "regex_exec codeBlockRegex fullText lastIndex = Some m"
  from codeBlockRegex_progress[OF this]
  show "((fullText, match_end m, add_code (language_of m) (trim g2) acc1),
         (fullText, lastIndex, acc))
        \<in> measure (\<lambda>(fullText, lastIndex, acc). length fullText - lastIndex)"
    by simp
qed

declare scan_blocks.simps [simp del]

definition empty_response :: string where
  "empty_response = ''[AI gave an empty response]''"

definition formatAndDisplayAIResponse :: "string \<Rightarrow> js_error + segment list" where
  "formatAndDisplayAIResponse fullText =
     (case scan_blocks fullText 0 (False, []) of
        Inl e \<Rightarrow> Inl e
      | Inr (lastIndex, acc) \<Rightarrow>
          (let acc1 = (if lastIndex < length fullText
                       then add_prose (substring_from fullText lastIndex) acc
                       else acc)
           in if fst acc1 then Inr (snd acc1)
              else Inr (snd acc1 @
                     [Prose (if trim fullText = [] then ''<i>[AI gave an empty response]</i>''
                             else trim fullText)])))"

text \<open>
  The regions that the loop visits: the successive results of
  \<^verbatim>\<open>codeBlockRegex.exec(fullText)\<close>.
\<close>

function all_matches :: "string \<Rightarrow> nat \<Rightarrow> regex_match list" where
  "all_matches fullText lastIndex =
     (case regex_exec codeBlockRegex fullText lastIndex of
        None \<Rightarrow> []
      | Some m \<Rightarrow> m # all_matches fullText (match_end m))"
  by pat_completeness auto
termination
proof (relation "measure (\<lambda>(fullText, lastIndex). length fullText - lastIndex)")
  show "wf (measure (\<lambda>(fullText, lastIndex). length fullText - lastIndex))" by simp
next
  fix fullText :: string and lastIndex :: nat and m
  assume "regex_exec codeBlockRegex fullText lastIndex = Some m"
  from codeBlockRegex_progress[OF this]
  show "((fullText, match_end m), (fullText, lastIndex))
        \<in> measure (\<lambda>(fullText, lastIndex). length fullText - lastIndex)"
    by simp
qed

declare all_matches.simps [simp del]

subsection \<open>Trimming\<close>

definition strip_ws :: "string \<Rightarrow> string" where
  "strip_ws s = filter (\<lambda>c. \<not> is_space c) s"

lemma filter_dropWhile_neg: "filter (\<lambda>c. \<not> P c) (dropWhile P xs) = filter (\<lambda>c. \<not> P c) xs"
  by (induction xs) auto

lemma strip_ws_trim: "strip_ws (trim s) = strip_ws s"
proof -
  let ?Q = "\<lambda>c. \<not> is_space c"
  have "filter ?Q (rev (dropWhile is_space (rev (dropWhile is_space s))))
      = rev (filter ?Q (dropWhile is_space (rev (dropWhile is_space s))))"
    by (simp only: rev_filter)
  also have "\<dots> = rev (filter ?Q (rev (dropWhile is_space s)))"
    by (simp only: filter_dropWhile_neg)
  also have "\<dots> = filter ?Q (dropWhile is_space s)"
    by (simp only: rev_filter [symmetric] rev_rev_ident)
  also have "\<dots> = filter ?Q s" by (rule filter_dropWhile_neg)
  finally show ?thesis by (simp add: strip_ws_def trim_def)
qed

lemma strip_ws_Nil [simp]: "strip_ws [] = []"
  by (simp add: strip_ws_def)

lemma strip_ws_append: "strip_ws (u @ v) = strip_ws u @ strip_ws v"
  by (simp add: strip_ws_def)

lemma strip_ws_spaces: "list_all is_space u \<Longrightarrow> strip_ws u = []"
  by (simp add: strip_ws_def list_all_iff)

lemma dropWhile_none: "list_all (\<lambda>c. \<not> P c) u \<Longrightarrow> dropWhile P u = u"
  by (cases u) auto

lemma trim_no_space: "list_all (\<lambda>c. \<not> is_space c) u \<Longrightarrow> trim u = u"
proof -
  assume a: "list_all (\<lambda>c. \<not> is_space c) u"
  then have "list_all (\<lambda>c. \<not> is_space c) (rev u)" by (simp add: list_all_iff)
  then have "dropWhile is_space (rev u) = rev u" by (rule dropWhile_none)
  with dropWhile_none[OF a] show ?thesis by (simp add: trim_def)
qed

lemma strip_ws_no_space: "list_all (\<lambda>c. \<not> is_space c) u \<Longrightarrow> strip_ws u = u"
  by (simp add: strip_ws_def list_all_iff)

lemma trim_Nil_iff: "trim s = [] \<longleftrightarrow> strip_ws s = []"
proof
  assume "trim s = []"
  then have "strip_ws (trim s) = []" by (simp add: strip_ws_def)
  then show "strip_ws s = []" by (simp only: strip_ws_trim)
next
  assume "strip_ws s = []"
  then have "\<forall>x \<in> set s. is_space x" by (simp add: strip_ws_def filter_empty_conv)
  then have "dropWhile is_space s = []" by (simp only: dropWhile_eq_Nil_conv)
  then have "trim s = rev (dropWhile is_space (rev []))" by (simp only: trim_def)
  then show "trim s = []" by simp
qed

lemma trim_head: "trim s = c # cs \<Longrightarrow> \<not> is_space c"
proof -
  assume a: "trim s = c # cs"
  let ?a = "dropWhile is_space s"
  from a have "rev (dropWhile is_space (rev ?a)) = c # cs" by (simp add: trim_def)
  moreover have "\<exists>v. ?a = rev (dropWhile is_space (rev ?a)) @ v"
  proof -
    have "rev ?a = takeWhile is_space (rev ?a) @ dropWhile is_space (rev ?a)" by simp
    then have "rev (rev ?a) = rev (takeWhile is_space (rev ?a) @ dropWhile is_space (rev ?a))"
      by (simp only:)
    then show ?thesis by (simp only: rev_rev_ident rev_append) blast
  qed
  ultimately obtain v where "?a = c # cs @ v" by auto
  then have "hd ?a = c" "?a \<noteq> []" by simp_all
  with hd_dropWhile[of is_space s] show ?thesis by auto
qed

lemma trim_idem: "trim (trim s) = trim s"
proof (cases "trim s")
  case Nil
  have "trim [] = []" by (simp add: trim_def)
  with Nil show ?thesis by simp
next
  case (Cons c cs)
  from trim_head[OF Cons] have h: "dropWhile is_space (trim s) = trim s" by (simp add: Cons)
  have "dropWhile is_space (rev (trim s)) = rev (trim s)"
    by (simp add: trim_def)
  with h show ?thesis by (simp add: trim_def[of "trim s"])
qed

lemma word_not_space: "is_word c \<Longrightarrow> \<not> is_space c"
  by (auto simp: is_word_def is_space_def Let_def)

lemma backtick_not_space: "\<not> is_space backtick"
  by (simp add: is_space_def backtick_def)




lemma takeWhile_all: "list_all P (takeWhile P xs)"
  by (induction xs) simp_all

lemma trim_decompose:
  "\<exists>a b. t = a @ trim t @ b \<and> list_all is_space a \<and> list_all is_space b"
proof -
  let ?d = "dropWhile is_space t"
  have 1: "t = takeWhile is_space t @ ?d" by simp
  have "rev ?d = takeWhile is_space (rev ?d) @ dropWhile is_space (rev ?d)" by simp
  then have "rev (rev ?d) = rev (takeWhile is_space (rev ?d) @ dropWhile is_space (rev ?d))"
    by (simp only:)
  then have 2: "?d = trim t @ rev (takeWhile is_space (rev ?d))"
    by (simp only: rev_rev_ident rev_append trim_def)
  have "list_all is_space (rev (takeWhile is_space (rev ?d)))"
    using takeWhile_all[of is_space "rev ?d"] by (simp add: list_all_iff)
  moreover have "t = takeWhile is_space t @ trim t @ rev (takeWhile is_space (rev ?d))"
    using 1 2 by metis
  ultimately show ?thesis using takeWhile_all[of is_space t] by blast
qed

subsection \<open>The loop, one match at a time\<close>

text \<open>
  \<open>group_text m i\<close> is the text of group \<open>i\<close>, empty when the group is undefined.
  \<open>block_step\<close> is the body of the loop for the match \<open>m\<close>.
\<close>

definition group_text :: "regex_match \<Rightarrow> nat \<Rightarrow> string" where
  "group_text m i = (case match_group m i of None \<Rightarrow> [] | Some g \<Rightarrow> g)"

definition block_step ::
  "string \<Rightarrow> nat \<Rightarrow> regex_match \<Rightarrow> bool \<times> segment list \<Rightarrow> bool \<times> segment list" where
  "block_step fullText lastIndex m acc =
     add_code (language_of m) (trim (group_text m 2))
       (if lastIndex < m_index m
        then add_prose (substring fullText lastIndex (m_index m)) acc
        else acc)"

lemma codeBlockRegex_groups:
  assumes "regex_exec codeBlockRegex s i = Some m"
  shows "\<exists>w ws g ws2. m_text m = fence @ w @ ws @ g @ ws2 @ fence \<and>
           list_all is_word w \<and> list_all is_space ws \<and> list_all is_space ws2 \<and>
           match_group m 1 = Some w \<and> match_group m 2 = Some g"
proof -
  from codeBlockRegex_exec[OF assms] obtain w ws g ws2 where
    a: "m_text m = fence @ w @ ws @ g @ ws2 @ fence" "list_all is_word w"
       "list_all is_space ws" "list_all is_space ws2" "m_groups m = [(2, g), (1, w)]" by blast
  from a(5) have "match_group m 1 = Some w" "match_group m 2 = Some g"
    by (simp_all add: match_group_def)
  with a show ?thesis by blast
qed

lemma scan_blocks_None:
  "regex_exec codeBlockRegex s i = None \<Longrightarrow> scan_blocks s i acc = Inr (i, acc)"
  by (subst scan_blocks.simps) simp

lemma scan_blocks_Some:
  assumes "regex_exec codeBlockRegex s i = Some m"
  shows "scan_blocks s i acc = scan_blocks s (match_end m) (block_step s i m acc)"
proof -
  from codeBlockRegex_groups[OF assms] obtain g where g: "match_group m 2 = Some g" by blast
  then have "group_text m 2 = g" by (simp add: group_text_def)
  with assms g show ?thesis
    by (subst scan_blocks.simps) (simp add: block_step_def Let_def)
qed


lemma all_matches_Some:
  "regex_exec codeBlockRegex s i = Some m \<Longrightarrow> all_matches s i = m # all_matches s (match_end m)"
  by (subst all_matches.simps) simp

text \<open>The loop never throws: group 2 takes part in every match.\<close>

lemma scan_blocks_total: "\<exists>j acc'. scan_blocks s i acc = Inr (j, acc')"
proof (induction s i arbitrary: acc rule: all_matches.induct)
  case (1 s i)
  show ?case
  proof (cases "regex_exec codeBlockRegex s i")
    case None
    then show ?thesis by (simp add: scan_blocks_None)
  next
    case (Some m)
    from "1.IH"[OF Some] show ?thesis by (simp only: scan_blocks_Some[OF Some])
  qed
qed

lemma formatAndDisplayAIResponse_total: "\<exists>segs. formatAndDisplayAIResponse s = Inr segs"
proof -
  from scan_blocks_total obtain j acc' where "scan_blocks s 0 (False, []) = Inr (j, acc')"
    by blast
  then show ?thesis by (simp add: formatAndDisplayAIResponse_def Let_def)
qed

subsection \<open>The code segments of the result\<close>


definition has_content :: "regex_match \<Rightarrow> bool" where
  "has_content m = (trim (group_text m 2) \<noteq> [])"















subsection \<open>The text that the segments stand for\<close>

text \<open>
  \<open>render_source\<close> writes a segment back as text: a prose segment is its text, a code
  segment is a fenced block with its tag and its content. \<open>pieces\<close> are the texts that a
  segment holds: the text of a prose segment, and for a code segment the opening fence
  with the tag, the content, and the closing fence. \<open>laid_out ps s\<close>: the string \<open>s\<close> is
  the pieces \<open>ps\<close>, in order and each code unit for code unit, with nothing but whitespace
  before, between and after them. \<open>trimmed p\<close>: the piece is not empty and neither begins
  nor ends with whitespace. \<open>good_block m\<close>: the match has a tag and a content that is not
  blank. \<open>unfilled acc\<close>: as long as \<^verbatim>\<open>contentAdded\<close> is false the bubble has no child.
\<close>

fun render_source :: "segment \<Rightarrow> string" where
  "render_source (Prose t) = t"
| "render_source (Code l c) = fence @ l @ [CHR 0x0A] @ c @ [CHR 0x0A] @ fence"
| "render_source (Image src alt) = []"

fun pieces :: "segment \<Rightarrow> string list" where
  "pieces (Prose t) = [t]"
| "pieces (Code l c) = [fence @ l, c, fence]"
| "pieces (Image src alt) = []"

inductive laid_out :: "string list \<Rightarrow> string \<Rightarrow> bool" where
  blank: "list_all is_space g \<Longrightarrow> laid_out [] g"
| piece: "list_all is_space g \<Longrightarrow> laid_out ps s \<Longrightarrow> laid_out (p # ps) (g @ p @ s)"

definition trimmed :: "string \<Rightarrow> bool" where
  "trimmed p = (p \<noteq> [] \<and> trim p = p)"

definition pcs :: "segment list \<Rightarrow> string list" where
  "pcs segs = concat (map pieces segs)"

definition good_block :: "regex_match \<Rightarrow> bool" where
  "good_block m = (group_text m 1 \<noteq> [] \<and> has_content m)"

definition unfilled :: "bool \<times> segment list \<Rightarrow> bool" where
  "unfilled acc = (fst acc \<or> snd acc = [])"

lemma substring_between:
  "a \<le> b \<Longrightarrow> b \<le> length s \<Longrightarrow> drop a s = substring s a b @ drop b s"
proof -
  assume ab: "a \<le> b" and b: "b \<le> length s"
  then have "substring s a b = take (b - a) (drop a s)"
    by (simp add: substring_def Let_def min_def max_def)
  moreover have "drop b s = drop (b - a) (drop a s)" using ab by simp
  ultimately show ?thesis by (simp only: append_take_drop_id)
qed

lemma unfilled_add_prose: "unfilled acc \<Longrightarrow> unfilled (add_prose t acc)"
  by (simp add: unfilled_def add_prose_def Let_def)

lemma unfilled_block_step: "unfilled acc \<Longrightarrow> unfilled (block_step s i m acc)"
  by (simp add: unfilled_def block_step_def add_code_def add_prose_def Let_def)

lemma scan_blocks_unfilled:
  "scan_blocks s i acc = Inr (j, acc') \<Longrightarrow> unfilled acc \<Longrightarrow> unfilled acc'"
proof (induction s i arbitrary: acc rule: all_matches.induct)
  case (1 s i)
  show ?case
  proof (cases "regex_exec codeBlockRegex s i")
    case None
    with "1.prems" show ?thesis by (simp add: scan_blocks_None)
  next
    case (Some m)
    from "1.prems"(1) have "scan_blocks s (match_end m) (block_step s i m acc) = Inr (j, acc')"
      by (simp only: scan_blocks_Some[OF Some])
    from "1.IH"[OF Some this unfilled_block_step[OF "1.prems"(2)]] show ?thesis .
  qed
qed

lemma laid_out_prepend:
  assumes "laid_out qs b" and "list_all is_space g"
  shows "laid_out qs (g @ b)"
  using assms(1)
proof cases
  case blank
  with assms(2) show ?thesis by (simp add: laid_out.blank)
next
  case (piece g' ps s p)
  from assms(2) piece(3) have "list_all is_space (g @ g')" by simp
  from laid_out.piece[OF this piece(4), of p] piece(1,2) show ?thesis by simp
qed

lemma laid_out_append:
  "laid_out ps a \<Longrightarrow> laid_out qs b \<Longrightarrow> laid_out (ps @ qs) (a @ b)"
proof (induction rule: laid_out.induct)
  case (blank g)
  then show ?case by (simp add: laid_out_prepend)
next
  case (piece g ps s p)
  from laid_out.piece[OF piece(1) piece(3)[OF piece(4)], of p] show ?case by simp
qed

lemma laid_out_strip_ws: "laid_out ps s \<Longrightarrow> strip_ws s = strip_ws (concat ps)"
  by (induction rule: laid_out.induct) (simp_all add: strip_ws_append strip_ws_spaces)

lemma laid_out_Nil: "laid_out [] s \<Longrightarrow> list_all is_space s"
  by (erule laid_out.cases) simp_all

lemma laid_out_single: "laid_out [p] p"
  using laid_out.piece[of "[]" "[]" "[]" p] laid_out.blank[of "[]"] by simp

lemma laid_out_trim: "trim t \<noteq> [] \<Longrightarrow> laid_out [trim t] t"
proof -
  from trim_decompose[of t] obtain a b where
    t: "t = a @ trim t @ b" and a: "list_all is_space a" and b: "list_all is_space b" by blast
  from laid_out.piece[OF a laid_out.blank[OF b], of "trim t"] t show ?thesis by simp
qed

lemma blank_laid_out: "trim t = [] \<Longrightarrow> laid_out [] t"
proof -
  assume "trim t = []"
  then have "strip_ws t = []" by (simp only: trim_Nil_iff)
  then have "list_all is_space t" by (simp add: strip_ws_def filter_empty_conv list_all_iff)
  then show ?thesis by (rule laid_out.blank)
qed

lemma pcs_append: "pcs (a @ b) = pcs a @ pcs b"
  by (simp add: pcs_def)

lemma trimmed_trim: "trim t \<noteq> [] \<Longrightarrow> trimmed (trim t)"
  by (simp add: trimmed_def trim_idem)

lemma trimmed_no_space: "p \<noteq> [] \<Longrightarrow> list_all (\<lambda>c. \<not> is_space c) p \<Longrightarrow> trimmed p"
  by (simp add: trimmed_def trim_no_space)

lemma add_prose_laid:
  "\<exists>segs. snd (add_prose t acc) = snd acc @ segs \<and> laid_out (pcs segs) t \<and>
     list_all trimmed (pcs segs)"
proof (cases "trim t = []")
  case True
  then have "snd (add_prose t acc) = snd acc @ []" by (simp add: add_prose_def)
  moreover from blank_laid_out[OF True] have "laid_out (pcs []) t" by (simp add: pcs_def)
  moreover have "list_all trimmed (pcs [])" by (simp add: pcs_def)
  ultimately show ?thesis by blast
next
  case False
  then have "snd (add_prose t acc) = snd acc @ [Prose (trim t)]"
    by (simp add: add_prose_def Let_def)
  moreover from laid_out_trim[OF False] have "laid_out (pcs [Prose (trim t)]) t"
    by (simp add: pcs_def)
  moreover from trimmed_trim[OF False] have "list_all trimmed (pcs [Prose (trim t)])"
    by (simp add: pcs_def)
  ultimately show ?thesis by blast
qed

lemma add_code_laid:
  assumes "regex_exec codeBlockRegex s i = Some m" and "good_block m"
  shows "snd (add_code (language_of m) (trim (group_text m 2)) acc) =
           snd acc @ [Code (language_of m) (trim (group_text m 2))] \<and>
         laid_out (pcs [Code (language_of m) (trim (group_text m 2))]) (m_text m) \<and>
         list_all trimmed (pcs [Code (language_of m) (trim (group_text m 2))])"
proof -
  from codeBlockRegex_groups[OF assms(1)] obtain w ws g ws2 where
    a: "m_text m = fence @ w @ ws @ g @ ws2 @ fence" "list_all is_word w"
       "list_all is_space ws" "list_all is_space ws2"
       "match_group m 1 = Some w" "match_group m 2 = Some g" by blast
  from a(2) have nw: "list_all (\<lambda>c. \<not> is_space c) w" by (auto simp: list_all_iff word_not_space)
  from a(5,6) have gt: "group_text m 1 = w" "group_text m 2 = g" by (simp_all add: group_text_def)
  from assms(2) gt have ne: "w \<noteq> []" "trim g \<noteq> []" by (simp_all add: good_block_def has_content_def)
  from ne(1) a(5) trim_no_space[OF nw] have lang: "language_of m = w"
    by (simp add: language_of_def)
  from trim_decompose[of g] obtain x y where
    g: "g = x @ trim g @ y" and x: "list_all is_space x" and y: "list_all is_space y" by blast
  from a(3) x have g1: "list_all is_space (ws @ x)" by simp
  from a(4) y have g2: "list_all is_space (y @ ws2)" by simp
  have e: "list_all is_space ([] :: string)" by simp
  have "laid_out [fence] ([] @ fence @ [])"
    by (rule laid_out.piece[OF e laid_out.blank[OF e]])
  then have "laid_out [trim g, fence] ((ws @ x) @ trim g @ ((y @ ws2) @ fence))"
    using laid_out_prepend[OF _ g2, of "[fence]" fence] laid_out.piece[OF g1, of "[fence]" _ "trim g"]
    by simp
  then have "laid_out [fence @ w, trim g, fence]
      ([] @ (fence @ w) @ ((ws @ x) @ trim g @ ((y @ ws2) @ fence)))"
    by (rule laid_out.piece[OF e])
  moreover have "[] @ (fence @ w) @ ((ws @ x) @ trim g @ ((y @ ws2) @ fence)) = m_text m"
  proof -
    have "ws @ g @ ws2 = ws @ (x @ trim g @ y) @ ws2" using g by simp
    then show ?thesis by (simp add: a(1))
  qed
  ultimately have "laid_out [fence @ w, trim g, fence] (m_text m)" by simp
  moreover have "trimmed fence" "trimmed (fence @ w)"
    using nw by (simp_all add: trimmed_no_space fence_def backtick_not_space)
  moreover note trimmed_trim[OF ne(2)]
  ultimately show ?thesis using ne(2) by (simp add: add_code_def lang gt pcs_def)
qed

lemma block_step_laid:
  assumes "regex_exec codeBlockRegex s i = Some m" and "good_block m"
  shows "\<exists>mid segs. drop i s = mid @ drop (match_end m) s \<and>
           snd (block_step s i m acc) = snd acc @ segs \<and> laid_out (pcs segs) mid \<and>
           list_all trimmed (pcs segs)"
proof -
  note b = regex_exec_bounds[OF assms(1)]
  from b(3) have "length (drop (m_index m) s) = length (m_text m) + length (drop (match_end m) s)"
    by simp
  then have le: "m_index m \<le> length s" using b(2) by (simp add: match_end_def)
  let ?gap = "substring s i (m_index m)"
  let ?acc1 = "if i < m_index m then add_prose ?gap acc else acc"
  have gap: "drop i s = (?gap @ m_text m) @ drop (match_end m) s"
    using substring_between[OF b(1) le] b(3) by simp
  have "\<exists>segs. snd ?acc1 = snd acc @ segs \<and> laid_out (pcs segs) ?gap \<and>
      list_all trimmed (pcs segs)"
  proof (cases "i < m_index m")
    case True
    then show ?thesis by (simp add: add_prose_laid)
  next
    case False
    with b(1) have "i = m_index m" by simp
    then have "?gap = []" by (simp add: substring_def Let_def)
    moreover have "laid_out (pcs []) []" "list_all trimmed (pcs [])"
      by (simp_all add: pcs_def laid_out.blank)
    ultimately show ?thesis using False by (intro exI[of _ "[]"]) simp
  qed
  then obtain segs1 where s1: "snd ?acc1 = snd acc @ segs1" "laid_out (pcs segs1) ?gap"
    "list_all trimmed (pcs segs1)" by blast
  let ?c = "Code (language_of m) (trim (group_text m 2))"
  from add_code_laid[OF assms, of ?acc1]
  have s2: "snd (block_step s i m acc) = snd ?acc1 @ [?c]" "laid_out (pcs [?c]) (m_text m)"
    "list_all trimmed (pcs [?c])"
    by (simp_all add: block_step_def)
  from laid_out_append[OF s1(2) s2(2)] have "laid_out (pcs (segs1 @ [?c])) (?gap @ m_text m)"
    by (simp only: pcs_append)
  moreover from s1(1) s2(1) have "snd (block_step s i m acc) = snd acc @ (segs1 @ [?c])" by simp
  moreover from s1(3) s2(3) have "list_all trimmed (pcs (segs1 @ [?c]))"
    by (simp only: pcs_append list_all_append)
  ultimately show ?thesis using gap by blast
qed

lemma scan_blocks_laid:
  "scan_blocks s i acc = Inr (j, acc') \<Longrightarrow> list_all good_block (all_matches s i) \<Longrightarrow>
     \<exists>mid segs. drop i s = mid @ drop j s \<and> snd acc' = snd acc @ segs \<and>
       laid_out (pcs segs) mid \<and> list_all trimmed (pcs segs)"
proof (induction s i arbitrary: acc rule: all_matches.induct)
  case (1 s i)
  show ?case
  proof (cases "regex_exec codeBlockRegex s i")
    case None
    with "1.prems" have "j = i" "acc' = acc" by (simp_all add: scan_blocks_None)
    moreover have "laid_out (pcs []) []" "list_all trimmed (pcs [])"
      by (simp_all add: pcs_def laid_out.blank)
    ultimately show ?thesis by (intro exI[of _ "[]"]) simp
  next
    case (Some m)
    from "1.prems"(1) have run: "scan_blocks s (match_end m) (block_step s i m acc) = Inr (j, acc')"
      by (simp only: scan_blocks_Some[OF Some])
    from "1.prems"(2) have g: "good_block m" "list_all good_block (all_matches s (match_end m))"
      by (simp_all add: all_matches_Some[OF Some])
    from block_step_laid[OF Some g(1), of acc] obtain mid1 segs1 where
      a: "drop i s = mid1 @ drop (match_end m) s" "snd (block_step s i m acc) = snd acc @ segs1"
         "laid_out (pcs segs1) mid1" "list_all trimmed (pcs segs1)" by blast
    from "1.IH"[OF Some run g(2)] obtain mid2 segs2 where
      b: "drop (match_end m) s = mid2 @ drop j s" "snd acc' = snd (block_step s i m acc) @ segs2"
         "laid_out (pcs segs2) mid2" "list_all trimmed (pcs segs2)" by blast
    from laid_out_append[OF a(3) b(3)] have "laid_out (pcs (segs1 @ segs2)) (mid1 @ mid2)"
      by (simp only: pcs_append)
    moreover from a(1) b(1) have "drop i s = (mid1 @ mid2) @ drop j s" by simp
    moreover from a(2) b(2) have "snd acc' = snd acc @ (segs1 @ segs2)" by simp
    moreover from a(4) b(4) have "list_all trimmed (pcs (segs1 @ segs2))"
      by (simp only: pcs_append list_all_append)
    ultimately show ?thesis by blast
  qed
qed

lemma render_source_laid: "laid_out (pcs segs) (concat (map render_source segs))"
proof (induction segs)
  case Nil
  show ?case by (simp add: pcs_def laid_out.blank)
next
  case (Cons seg segs)
  have e: "list_all is_space ([] :: string)" by simp
  have lf: "list_all is_space [CHR 0x0A]" by (simp add: is_space_def)
  have "laid_out (pieces seg) (render_source seg)"
  proof (cases seg)
    case (Prose t)
    then show ?thesis by (simp add: laid_out_single)
  next
    case (Code l c)
    have "laid_out [fence] ([CHR 0x0A] @ fence @ [])"
      by (rule laid_out.piece[OF lf laid_out.blank[OF e]])
    then have "laid_out [c, fence] ([CHR 0x0A] @ c @ ([CHR 0x0A] @ fence @ []))"
      by (rule laid_out.piece[OF lf])
    then have "laid_out [fence @ l, c, fence] ([] @ (fence @ l) @ ([CHR 0x0A] @ c @ ([CHR 0x0A] @ fence @ [])))"
      by (rule laid_out.piece[OF e])
    with Code show ?thesis by simp
  next
    case (Image src alt)
    then show ?thesis by (simp add: laid_out.blank)
  qed
  from laid_out_append[OF this Cons.IH] show ?case by (simp add: pcs_def)
qed

subsection \<open>The text handed to the scan when a stream completes\<close>

text \<open>
  \<^verbatim>\<open>handleTextMessage\<close> stores and formats
  \<^verbatim>\<open>aiResponseText.trim() || "[AI gave an empty response]"\<close>; it is the only caller of
  \<^verbatim>\<open>formatAndDisplayAIResponse\<close>.
\<close>

definition final_text :: "string \<Rightarrow> string" where
  "final_text aiResponseText =
     (if trim aiResponseText = [] then empty_response else trim aiResponseText)"



lemma format_empty_response:
  "formatAndDisplayAIResponse empty_response = Inr [Prose ''[AI gave an empty response]'']"
  by code_simp




section \<open>Messages, the page and the store\<close>

text \<open>
  \<^verbatim>\<open>interface StoredMessage\<close>, with its optional fields as options. An id is written
  \<^verbatim>\<open>`prefix-${Date.now()}`\<close>: \<open>MessageId prefix time\<close>. A string or a flag is tested for
  truth as JavaScript does: \<^verbatim>\<open>undefined\<close> and the empty string are false.
\<close>

datatype role = User | Model

datatype message_id = MessageId string nat

record StoredMessage =
  msg_id :: message_id
  role :: role
  textContent :: "string option"
  imageUrl :: "string option"
  altText :: "string option"
  isError :: "bool option"
  timestamp :: nat

definition truthy :: "string option \<Rightarrow> bool" where
  "truthy v = (case v of None \<Rightarrow> False | Some s \<Rightarrow> s \<noteq> [])"

definition text_of :: "string option \<Rightarrow> string" where
  "text_of v = (case v of None \<Rightarrow> [] | Some s \<Rightarrow> s)"

definition is_error :: "StoredMessage \<Rightarrow> bool" where
  "is_error message = (isError message = Some True)"

text \<open>
  The page. A \<open>bubble\<close> is a \<^verbatim>\<open>div.message\<close> of the chat container: \<open>node\<close> is the
  identity of the DOM object, \<open>children\<close> what it shows. The \<open>page\<close> holds what the script
  reads and writes: the constant \<^verbatim>\<open>API_KEY\<close>, the text area and the send button, the
  status line, the chat container, the item \<^verbatim>\<open>aiChatAssistantProHistory\<close> of
  \<^verbatim>\<open>localStorage\<close> (\<open>None\<close> when absent; \<^verbatim>\<open>JSON.stringify\<close> and \<^verbatim>\<open>JSON.parse\<close> are
  inverse on these records), the history that seeded the \<^verbatim>\<open>chat\<close> session, the next
  fresh node and the clock read by \<^verbatim>\<open>Date.now()\<close>. Scrolling, focus and the
  \<^verbatim>\<open>aria-busy\<close> attributes, which follow the \<^verbatim>\<open>disabled\<close> flags, are left out. DOM and
  storage calls do not throw.
\<close>

record bubble =
  node :: nat
  data_message_id :: message_id
  bubble_role :: role
  message_error :: bool
  children :: "segment list"

datatype content = Content role string

record page =
  API_KEY :: "string option"
  messageInput_value :: string
  messageInput_disabled :: bool
  sendButton_disabled :: bool
  statusMessage :: string
  chatContainer :: "bubble list"
  localStorage :: "StoredMessage list option"
  chat :: "content list"
  next_node :: nat
  now :: nat

definition createMessageDiv :: "StoredMessage \<Rightarrow> page \<Rightarrow> bubble \<times> page" where
  "createMessageDiv message st =
     (\<lparr>node = next_node st, data_message_id = msg_id message, bubble_role = role message,
       message_error = is_error message, children = []\<rparr>,
      st\<lparr>next_node := Suc (next_node st)\<rparr>)"

definition appendChild :: "bubble \<Rightarrow> page \<Rightarrow> page" where
  "appendChild b st = st\<lparr>chatContainer := chatContainer st @ [b]\<rparr>"

text \<open>
  \<^verbatim>\<open>addMessageToChat\<close>: the bubble gets a markdown child for a text (an error's text
  after \<^verbatim>\<open>**Error:**\<close>), an image child for an image, and no child otherwise.
\<close>

definition message_children :: "StoredMessage \<Rightarrow> segment list" where
  "message_children message =
     (if truthy (textContent message)
      then [Prose (if is_error message
                   then ''**Error:** '' @ text_of (textContent message)
                   else text_of (textContent message))]
      else if truthy (imageUrl message)
      then [Image (text_of (imageUrl message))
              (if truthy (altText message) then text_of (altText message)
               else ''Generated image'')]
      else [])"

definition addMessageToChat :: "StoredMessage \<Rightarrow> page \<Rightarrow> page" where
  "addMessageToChat message st =
     (let (messageDiv, st1) = createMessageDiv message st
      in appendChild (messageDiv\<lparr>children := message_children message\<rparr>) st1)"

definition loadChatHistory :: "page \<Rightarrow> StoredMessage list" where
  "loadChatHistory st = (case localStorage st of None \<Rightarrow> [] | Some history \<Rightarrow> history)"

definition saveMessageToHistory :: "StoredMessage \<Rightarrow> page \<Rightarrow> page" where
  "saveMessageToHistory message st = st\<lparr>localStorage := Some (loadChatHistory st @ [message])\<rparr>"

definition initializeChat :: "content list \<Rightarrow> page \<Rightarrow> page" where
  "initializeChat history st = st\<lparr>chat := history\<rparr>"

text \<open>
  \<^verbatim>\<open>populateChatFromHistory\<close>: the \<^verbatim>\<open>forEach\<close> over the stored messages carries the
  page and \<^verbatim>\<open>geminiHistory\<close>.
\<close>

fun replay :: "StoredMessage list \<Rightarrow> page \<times> content list \<Rightarrow> page \<times> content list" where
  "replay [] acc = acc"
| "replay (msg # history) (st, geminiHistory) =
     replay history
       (addMessageToChat msg st,
        if truthy (textContent msg) \<and> \<not> is_error msg
        then geminiHistory @ [Content (role msg) (text_of (textContent msg))]
        else geminiHistory)"

definition populateChatFromHistory :: "page \<Rightarrow> page" where
  "populateChatFromHistory st =
     (let (st1, geminiHistory) = replay (loadChatHistory st) (st, [])
      in initializeChat geminiHistory st1)"

definition setLoading :: "bool \<Rightarrow> string \<Rightarrow> page \<Rightarrow> page" where
  "setLoading isLoading message st =
     st\<lparr>sendButton_disabled := isLoading, messageInput_disabled := isLoading,
        statusMessage := (if isLoading then message else [])\<rparr>"

definition clearChat :: "page \<Rightarrow> page" where
  "clearChat st =
     addMessageToChat
       \<lparr>msg_id = MessageId ''sys'' (now st), role = Model,
         textContent = Some ''<i>Chat history cleared.</i>'', imageUrl = None, altText = None,
         isError = None, timestamp = now st\<rparr>
       (initializeChat [] (st\<lparr>chatContainer := [], localStorage := None\<rparr>))"

text \<open>
  The page once the script has run: the configuration error when the key is missing, then
  \<^verbatim>\<open>new GoogleGenAI({ apiKey: API_KEY })\<close> and, at the end of the script,
  \<^verbatim>\<open>populateChatFromHistory()\<close>. \<open>key\<close> is \<^verbatim>\<open>process.env.API_KEY\<close>, \<open>stored\<close> the item
  found in \<^verbatim>\<open>localStorage\<close> and \<open>t\<close> the time. The constructor of the library throws
  when the key is \<^verbatim>\<open>undefined\<close> (in a browser it requires a key), and the script stops
  there: the page shows the configuration error, nothing is replayed and no listener is
  registered. With an empty string for a key the constructor returns and the script goes on.
\<close>

definition boot :: "string option \<Rightarrow> StoredMessage list option \<Rightarrow> nat \<Rightarrow> page" where
  "boot key stored t =
     (let st = \<lparr>API_KEY = key, messageInput_value = [], messageInput_disabled = False,
                sendButton_disabled = False, statusMessage = [], chatContainer = [],
                localStorage = stored, chat = [], next_node = 0, now = t\<rparr>;
          st1 = (if truthy key then st
                 else addMessageToChat
                        \<lparr>msg_id = MessageId ''err'' t, role = Model,
                          textContent = Some ''Configuration error: API Key is missing. Cannot connect to AI services.'',
                          imageUrl = None, altText = None, isError = Some True, timestamp = t\<rparr> st)
      in case key of None \<Rightarrow> st1 | Some k \<Rightarrow> populateChatFromHistory st1)"

section \<open>The controller: \<^verbatim>\<open>handleSendMessage\<close>\<close>

subsection \<open>Classifying the input\<close>

definition IMAGE_GENERATION_KEYWORDS :: "string list" where
  "IMAGE_GENERATION_KEYWORDS =
     [''generate image of'', ''create an image of'', ''draw a picture of'',
      ''draw an image of'', ''show me an image of'', ''make an image of'']"

text \<open>
  The \<^verbatim>\<open>for (const keyword of IMAGE_GENERATION_KEYWORDS)\<close> loop with its \<^verbatim>\<open>break\<close>; the
  result is \<^verbatim>\<open>isImageRequest\<close> and \<^verbatim>\<open>imagePrompt\<close>.
\<close>

fun find_keyword :: "string list \<Rightarrow> string \<Rightarrow> string \<Rightarrow> bool \<times> string" where
  "find_keyword [] lowerCaseMessage userMessageText = (False, [])"
| "find_keyword (keyword # keywords) lowerCaseMessage userMessageText =
     (if startsWith lowerCaseMessage keyword
      then (True, trim (substring_from userMessageText (length keyword)))
      else find_keyword keywords lowerCaseMessage userMessageText)"

datatype request = ImageRequest string | TextRequest string

text \<open>\<^verbatim>\<open>if (isImageRequest && imagePrompt) ... else ...\<close>\<close>

definition classify :: "string \<Rightarrow> request" where
  "classify userMessageText =
     (let (isImageRequest, imagePrompt) =
            find_keyword IMAGE_GENERATION_KEYWORDS (toLowerCase userMessageText) userMessageText
      in if isImageRequest \<and> imagePrompt \<noteq> [] then ImageRequest imagePrompt
         else TextRequest userMessageText)"

subsection \<open>The parts of a turn\<close>

text \<open>
  An \<^verbatim>\<open>async\<close> function runs up to its first \<^verbatim>\<open>await\<close> when it is called and goes on
  when the awaited service answers. A \<open>pending\<close> turn is what the suspended call keeps:
  the node of its bubble and, for the text path, the message sent, \<^verbatim>\<open>aiResponseText\<close>
  and \<^verbatim>\<open>firstChunkReceived\<close>; for the image path, the prompt. A bubble that was removed
  from the chat container is no longer on the page, so writing to it changes nothing
  there (\<open>update_bubble\<close>).
\<close>

datatype pending = TextTurn nat string string bool | ImageTurn nat string

definition update_bubble :: "nat \<Rightarrow> (bubble \<Rightarrow> bubble) \<Rightarrow> page \<Rightarrow> page" where
  "update_bubble n f st =
     st\<lparr>chatContainer := map (\<lambda>b. if node b = n then f b else b) (chatContainer st)\<rparr>"

definition error_message_of :: "js_error \<Rightarrow> string \<Rightarrow> string" where
  "error_message_of e fallback = (case e of JsError message \<Rightarrow> message | NonError \<Rightarrow> fallback)"

definition model_message ::
  "string \<Rightarrow> nat \<Rightarrow> string option \<Rightarrow> string option \<Rightarrow> string option \<Rightarrow> bool option \<Rightarrow> StoredMessage" where
  "model_message prefix t text url alt err =
     \<lparr>msg_id = MessageId prefix t, role = Model, textContent = text, imageUrl = url,
       altText = alt, isError = err, timestamp = t\<rparr>"

definition user_message :: "string \<Rightarrow> nat \<Rightarrow> StoredMessage" where
  "user_message userMessageText t =
     \<lparr>msg_id = MessageId ''user'' t, role = User, textContent = Some userMessageText,
       imageUrl = None, altText = None, isError = None, timestamp = t\<rparr>"

text \<open>\<^verbatim>\<open>handleTextMessage\<close> up to \<^verbatim>\<open>await chat.sendMessageStream({ message: text })\<close>.\<close>

definition handleTextMessage_start :: "string \<Rightarrow> page \<Rightarrow> page \<times> pending" where
  "handleTextMessage_start text st =
     (let (aiMessageBubble, st1) =
            createMessageDiv
              (model_message ''ai-thinking'' (now st) (Some ''<i>AI is thinking...</i>'')
                 None None None) st
      in (appendChild (aiMessageBubble\<lparr>children := [Prose ''<i>AI is thinking...</i>'']\<rparr>) st1,
          TextTurn (node aiMessageBubble) text [] False))"

text \<open>One round of \<^verbatim>\<open>for await (const chunk of responseStream)\<close>; \<open>chunkText\<close> is \<^verbatim>\<open>chunk.text\<close>.\<close>

fun on_chunk :: "string option \<Rightarrow> pending \<times> page \<Rightarrow> pending \<times> page" where
  "on_chunk chunkText (TextTurn n text aiResponseText firstChunkReceived, st) =
     (let st1 = (if firstChunkReceived then st
                 else update_bubble n (\<lambda>b. b\<lparr>children := [Prose []]\<rparr>) st)
      in if truthy chunkText
         then (TextTurn n text (aiResponseText @ text_of chunkText) True,
               update_bubble n
                 (\<lambda>b. b\<lparr>children := [Prose (aiResponseText @ text_of chunkText)]\<rparr>) st1)
         else (TextTurn n text aiResponseText True, st1))"
| "on_chunk chunkText (ImageTurn n prompt, st) = (ImageTurn n prompt, st)"

text \<open>The \<^verbatim>\<open>catch\<close> block of \<^verbatim>\<open>handleTextMessage\<close>.\<close>

definition handleTextMessage_catch :: "js_error \<Rightarrow> nat \<Rightarrow> page \<Rightarrow> page" where
  "handleTextMessage_catch e n st =
     (let errorMsg = model_message ''err-text'' (now st)
                       (Some (error_message_of e ''Could not get a response from the AI.''))
                       None None (Some True);
          st1 = st\<lparr>chatContainer := filter (\<lambda>b. node b \<noteq> n) (chatContainer st)\<rparr>
      in saveMessageToHistory errorMsg (addMessageToChat errorMsg st1))"

text \<open>
  The end of the \<^verbatim>\<open>try\<close> block, when the stream has completed: the final message is
  built, shown in the bubble in place of the streamed text, and saved.
\<close>

definition handleTextMessage_finish :: "nat \<Rightarrow> string \<Rightarrow> page \<Rightarrow> page" where
  "handleTextMessage_finish n aiResponseText st =
     (let finalAiMessage = model_message ''ai'' (now st) (Some (final_text aiResponseText))
                             None None None;
          st1 = update_bubble n
                  (\<lambda>b. b\<lparr>data_message_id := msg_id finalAiMessage, children := []\<rparr>) st
      in case formatAndDisplayAIResponse (final_text aiResponseText) of
           Inl e \<Rightarrow> handleTextMessage_catch e n st1
         | Inr segs \<Rightarrow>
             saveMessageToHistory finalAiMessage
               (update_bubble n (\<lambda>b. b\<lparr>children := segs\<rparr>) st1))"

text \<open>
  What \<^verbatim>\<open>chat.sendMessageStream\<close> delivers: the chunks' texts, then the normal end or the
  failure that is thrown (before the first chunk or after any of them).
\<close>

datatype stream = Stream "string option list" "js_error option"

fun run_chunks :: "string option list \<Rightarrow> pending \<times> page \<Rightarrow> pending \<times> page" where
  "run_chunks [] p = p"
| "run_chunks (chunkText # chunks) p = run_chunks chunks (on_chunk chunkText p)"

fun handleTextMessage_end :: "js_error option \<Rightarrow> pending \<times> page \<Rightarrow> page" where
  "handleTextMessage_end None (TextTurn n text aiResponseText f, st) =
     handleTextMessage_finish n aiResponseText st"
| "handleTextMessage_end (Some e) (TextTurn n text aiResponseText f, st) =
     handleTextMessage_catch e n st"
| "handleTextMessage_end r (ImageTurn n prompt, st) = st"

fun handleTextMessage_resume :: "stream \<Rightarrow> pending \<times> page \<Rightarrow> page" where
  "handleTextMessage_resume (Stream chunks r) p = handleTextMessage_end r (run_chunks chunks p)"

text \<open>\<^verbatim>\<open>handleImageGeneration\<close> up to \<^verbatim>\<open>await ai.models.generateImages(...)\<close>.\<close>

definition handleImageGeneration_start :: "string \<Rightarrow> page \<Rightarrow> page \<times> pending" where
  "handleImageGeneration_start prompt st =
     (let info = ''<i>Generating an image for: '' @ [CHR 0x22] @ prompt @ [CHR 0x22] @ ''...</i>'';
          (aiMessageBubble, st1) =
            createMessageDiv
              (model_message ''ai-img-placeholder'' (now st) (Some info) None None None) st
      in (appendChild (aiMessageBubble\<lparr>children := [Prose info]\<rparr>) st1,
          ImageTurn (node aiMessageBubble) prompt))"

text \<open>
  What \<^verbatim>\<open>generateImages\<close> delivers: a response whose \<^verbatim>\<open>generatedImages\<close> is undefined
  or a list of entries, each with its \<^verbatim>\<open>image?.imageBytes\<close>; or a failure. The three
  ways in which the function sets \<^verbatim>\<open>finalImageMessage\<close>: the image, the missing data,
  and the \<^verbatim>\<open>catch\<close> block. Reading \<^verbatim>\<open>generatedImages[0].image\<close> of an empty list throws
  a \<^verbatim>\<open>TypeError\<close> inside the \<^verbatim>\<open>try\<close> block.
\<close>

datatype image_outcome = ImageResponse "string option list option" | ImageFailure js_error

definition image_success :: "string \<Rightarrow> nat \<Rightarrow> string \<Rightarrow> page \<Rightarrow> page \<times> StoredMessage" where
  "image_success base64ImageBytes n prompt st =
     (let imageUrl = ''data:image/jpeg;base64,'' @ base64ImageBytes;
          alt = ''Generated image for: '' @ prompt
      in (update_bubble n (\<lambda>b. b\<lparr>children := [Image imageUrl alt]\<rparr>) st,
          model_message ''ai-img'' (now st) None (Some imageUrl) (Some alt) None))"

definition image_missing :: "nat \<Rightarrow> page \<Rightarrow> page \<times> StoredMessage" where
  "image_missing n st =
     (let errorText = ''Sorry, I could not generate an image. The image data might be missing.''
      in (update_bubble n (\<lambda>b. b\<lparr>message_error := True, children := [Prose errorText]\<rparr>) st,
          model_message ''err-img'' (now st) (Some errorText) None None (Some True)))"

definition image_caught :: "js_error \<Rightarrow> nat \<Rightarrow> page \<Rightarrow> page \<times> StoredMessage" where
  "image_caught e n st =
     (let errorText = ''Error generating image: '' @ error_message_of e ''Failed to generate image.''
      in (update_bubble n (\<lambda>b. b\<lparr>message_error := True, children := [Prose errorText]\<rparr>) st,
          model_message ''err-img-api'' (now st) (Some errorText) None None (Some True)))"

definition handleImageGeneration_resume :: "image_outcome \<Rightarrow> nat \<Rightarrow> string \<Rightarrow> page \<Rightarrow> page" where
  "handleImageGeneration_resume outcome n prompt st =
     (let (st1, finalImageMessage) =
            (case outcome of
               ImageFailure e \<Rightarrow> image_caught e n st
             | ImageResponse None \<Rightarrow> image_missing n st
             | ImageResponse (Some []) \<Rightarrow> image_caught (type_error ''image'') n st
             | ImageResponse (Some (first # others)) \<Rightarrow>
                 if truthy first then image_success (text_of first) n prompt st
                 else image_missing n st)
      in saveMessageToHistory finalImageMessage
           (update_bubble n (\<lambda>b. b\<lparr>data_message_id := msg_id finalImageMessage\<rparr>) st1))"

text \<open>
  \<^verbatim>\<open>handleSendMessage\<close> up to its \<^verbatim>\<open>await\<close>: the page it leaves and the turn that is
  now pending, \<open>None\<close> when the call returned early.
\<close>

definition handleSendMessage_start :: "page \<Rightarrow> page \<times> pending option" where
  "handleSendMessage_start st =
     (if \<not> truthy (API_KEY st)
      then (addMessageToChat
              (model_message ''err-noapikey'' (now st)
                 (Some ''Cannot send message: API Key is not configured.'') None None (Some True))
              st, None)
      else
        let userMessageText = trim (messageInput_value st) in
        if userMessageText = [] then (st, None)
        else
          let userMessage = user_message userMessageText (now st);
              st1 = saveMessageToHistory userMessage (addMessageToChat userMessage st);
              st2 = st1\<lparr>messageInput_value := []\<rparr>
          in case classify userMessageText of
               ImageRequest imagePrompt \<Rightarrow>
                 (let (st3, p) = handleImageGeneration_start imagePrompt
                                   (setLoading True ''Generating image...'' st2)
                  in (st3, Some p))
             | TextRequest text \<Rightarrow>
                 (let (st3, p) = handleTextMessage_start text
                                   (setLoading True ''AI is thinking...'' st2)
                  in (st3, Some p)))"

text \<open>
  The \<^verbatim>\<open>catch\<close> and \<^verbatim>\<open>finally\<close> blocks of \<^verbatim>\<open>handleSendMessage\<close>; \<open>thrown\<close> is what
  left the awaited call. Both paths catch what their services throw, so in this model
  nothing leaves them.
\<close>

definition handleSendMessage_catch :: "js_error \<Rightarrow> page \<Rightarrow> page" where
  "handleSendMessage_catch e st =
     (let errorMsg = model_message ''err-handler'' (now st)
                       (Some (error_message_of e ''An unknown error occurred.''))
                       None None (Some True)
      in saveMessageToHistory errorMsg (addMessageToChat errorMsg st))"

definition handleSendMessage_finally :: "js_error option \<Rightarrow> page \<Rightarrow> page" where
  "handleSendMessage_finally thrown st =
     setLoading False []
       (case thrown of None \<Rightarrow> st | Some e \<Rightarrow> handleSendMessage_catch e st)"

text \<open>
  A whole turn, taken alone: the services' answers are \<open>text_stream\<close> and
  \<open>image_result\<close>, and \<open>elapsed\<close> is the time that the answer takes.
\<close>

record service =
  text_stream :: stream
  image_result :: image_outcome
  elapsed :: nat

definition handleSendMessage_resume :: "service \<Rightarrow> pending \<Rightarrow> page \<Rightarrow> page" where
  "handleSendMessage_resume env p st =
     handleSendMessage_finally None
       (case p of
          TextTurn n text aiResponseText f \<Rightarrow> handleTextMessage_resume (text_stream env) (p, st)
        | ImageTurn n prompt \<Rightarrow> handleImageGeneration_resume (image_result env) n prompt st)"

definition handleSendMessage :: "service \<Rightarrow> page \<Rightarrow> page" where
  "handleSendMessage env st =
     (case handleSendMessage_start st of
        (st1, None) \<Rightarrow> st1
      | (st1, Some p) \<Rightarrow> handleSendMessage_resume env p (st1\<lparr>now := now st1 + elapsed env\<rparr>))"

subsection \<open>What each step changes\<close>

lemma addMessageToChat_fields [simp]:
  "API_KEY (addMessageToChat m st) = API_KEY st"
  "messageInput_value (addMessageToChat m st) = messageInput_value st"
  "messageInput_disabled (addMessageToChat m st) = messageInput_disabled st"
  "sendButton_disabled (addMessageToChat m st) = sendButton_disabled st"
  "statusMessage (addMessageToChat m st) = statusMessage st"
  "localStorage (addMessageToChat m st) = localStorage st"
  "chat (addMessageToChat m st) = chat st"
  "now (addMessageToChat m st) = now st"
  "next_node (addMessageToChat m st) = Suc (next_node st)"
  "chatContainer (addMessageToChat m st) =
     chatContainer st @
       [\<lparr>node = next_node st, data_message_id = msg_id m, bubble_role = role m,
         message_error = is_error m, children = message_children m\<rparr>]"
  by (simp_all add: addMessageToChat_def createMessageDiv_def appendChild_def)

lemma loadChatHistory_eq: "localStorage a = localStorage b \<Longrightarrow> loadChatHistory a = loadChatHistory b"
  by (simp add: loadChatHistory_def)

lemma loadChatHistory_addMessageToChat [simp]:
  "loadChatHistory (addMessageToChat m st) = loadChatHistory st"
  by (simp add: loadChatHistory_def)

lemma saveMessageToHistory_fields [simp]:
  "API_KEY (saveMessageToHistory m st) = API_KEY st"
  "messageInput_value (saveMessageToHistory m st) = messageInput_value st"
  "messageInput_disabled (saveMessageToHistory m st) = messageInput_disabled st"
  "sendButton_disabled (saveMessageToHistory m st) = sendButton_disabled st"
  "statusMessage (saveMessageToHistory m st) = statusMessage st"
  "chatContainer (saveMessageToHistory m st) = chatContainer st"
  "chat (saveMessageToHistory m st) = chat st"
  "now (saveMessageToHistory m st) = now st"
  "next_node (saveMessageToHistory m st) = next_node st"
  "localStorage (saveMessageToHistory m st) = Some (loadChatHistory st @ [m])"
  "loadChatHistory (saveMessageToHistory m st) = loadChatHistory st @ [m]"
  by (simp_all add: saveMessageToHistory_def loadChatHistory_def)

lemma update_bubble_fields [simp]:
  "API_KEY (update_bubble n f st) = API_KEY st"
  "messageInput_value (update_bubble n f st) = messageInput_value st"
  "messageInput_disabled (update_bubble n f st) = messageInput_disabled st"
  "sendButton_disabled (update_bubble n f st) = sendButton_disabled st"
  "statusMessage (update_bubble n f st) = statusMessage st"
  "localStorage (update_bubble n f st) = localStorage st"
  "loadChatHistory (update_bubble n f st) = loadChatHistory st"
  "chat (update_bubble n f st) = chat st"
  "now (update_bubble n f st) = now st"
  "next_node (update_bubble n f st) = next_node st"
  by (simp_all add: update_bubble_def loadChatHistory_def)

lemma setLoading_fields [simp]:
  "API_KEY (setLoading b t st) = API_KEY st"
  "messageInput_value (setLoading b t st) = messageInput_value st"
  "messageInput_disabled (setLoading b t st) = b"
  "sendButton_disabled (setLoading b t st) = b"
  "statusMessage (setLoading b t st) = (if b then t else [])"
  "chatContainer (setLoading b t st) = chatContainer st"
  "localStorage (setLoading b t st) = localStorage st"
  "loadChatHistory (setLoading b t st) = loadChatHistory st"
  "chat (setLoading b t st) = chat st"
  "now (setLoading b t st) = now st"
  "next_node (setLoading b t st) = next_node st"
  by (simp_all add: setLoading_def loadChatHistory_def)

subsection \<open>Classification\<close>

lemma find_keyword_find:
  "find_keyword ks l u =
     (case find (\<lambda>k. startsWith l k) ks of
        None \<Rightarrow> (False, [])
      | Some k \<Rightarrow> (True, trim (drop (length k) u)))"
  by (induction ks) (simp_all add: substring_from_def)

lemma classify_find:
  "classify u =
     (case find (\<lambda>k. startsWith (toLowerCase u) k) IMAGE_GENERATION_KEYWORDS of
        None \<Rightarrow> TextRequest u
      | Some k \<Rightarrow> if trim (drop (length k) u) = [] then TextRequest u
                  else ImageRequest (trim (drop (length k) u)))"
  by (simp add: classify_def find_keyword_find split: option.splits)

lemma classify_cat: "classify ''generate image of a cat'' = ImageRequest ''a cat''"
  by code_simp

lemma classify_bare: "classify ''generate image of'' = TextRequest ''generate image of''"
  by code_simp

lemma handleSendMessage_start_accepted:
  assumes "truthy (API_KEY st)" and "trim (messageInput_value st) \<noteq> []"
  shows "snd (handleSendMessage_start st) =
           Some (case classify (trim (messageInput_value st)) of
                   ImageRequest imagePrompt \<Rightarrow> ImageTurn (Suc (next_node st)) imagePrompt
                 | TextRequest text \<Rightarrow> TextTurn (Suc (next_node st)) text [] False)"
  using assms
  by (simp add: handleSendMessage_start_def Let_def handleImageGeneration_start_def
        handleTextMessage_start_def createMessageDiv_def split: request.splits)

subsection \<open>Replay\<close>

definition in_context :: "StoredMessage \<Rightarrow> bool" where
  "in_context msg = (truthy (textContent msg) \<and> \<not> is_error msg)"

definition to_content :: "StoredMessage \<Rightarrow> content" where
  "to_content msg = Content (role msg) (text_of (textContent msg))"

lemma replay_context:
  "snd (replay history (st, g)) = g @ map to_content (filter in_context history)"
  by (induction history arbitrary: st g) (simp_all add: in_context_def to_content_def)

lemma replay_storage: "localStorage (fst (replay history (st, g))) = localStorage st"
  by (induction history arbitrary: st g) simp_all

lemma populate_chat:
  "chat (populateChatFromHistory st) = map to_content (filter in_context (loadChatHistory st))"
proof -
  obtain st1 g where r: "replay (loadChatHistory st) (st, []) = (st1, g)" by force
  from replay_context[of "loadChatHistory st" st "[]"] r
  have "g = map to_content (filter in_context (loadChatHistory st))" by simp
  with r show ?thesis by (simp add: populateChatFromHistory_def initializeChat_def)
qed

lemma boot_chat:
  "truthy key \<Longrightarrow>
     chat (boot key stored t) =
       map to_content (filter in_context (case stored of None \<Rightarrow> [] | Some h \<Rightarrow> h))"
  by (cases key) (simp_all add: truthy_def boot_def Let_def populate_chat loadChatHistory_def)

subsection \<open>A turn, step by step\<close>

text \<open>The three kinds of a stored message: a text, an image, an error.\<close>

definition is_text_message :: "StoredMessage \<Rightarrow> bool" where
  "is_text_message m = (truthy (textContent m) \<and> imageUrl m = None \<and> \<not> is_error m)"

definition is_image_message :: "StoredMessage \<Rightarrow> bool" where
  "is_image_message m = (textContent m = None \<and> truthy (imageUrl m) \<and> \<not> is_error m)"

definition is_error_message :: "StoredMessage \<Rightarrow> bool" where
  "is_error_message m = (is_error m \<and> imageUrl m = None)"

definition keeps_node :: "(bubble \<Rightarrow> bubble) \<Rightarrow> bool" where
  "keeps_node g = (\<forall>b. node (g b) = node b)"

lemma final_text_truthy: "truthy (Some (final_text x))"
  by (simp add: truthy_def final_text_def empty_response_def)

lemma update_bubble_twice:
  "keeps_node g \<Longrightarrow> update_bubble n h (update_bubble n g st) = update_bubble n (h \<circ> g) st"
  by (simp add: update_bubble_def keeps_node_def)

lemma update_bubble_id: "update_bubble n (\<lambda>b. b) st = st"
  by (simp add: update_bubble_def)

lemma on_chunk_text:
  assumes "keeps_node g"
  shows "\<exists>h. keeps_node h \<and>
           on_chunk c (TextTurn n x acc f, update_bubble n g st) =
             (TextTurn n x (acc @ text_of c) True, update_bubble n h st)"
proof -
  let ?g1 = "if f then g else (\<lambda>b. b\<lparr>children := [Prose []]\<rparr>) \<circ> g"
  have k1: "keeps_node ?g1" using assms by (simp add: keeps_node_def)
  have s1: "(if f then update_bubble n g st
             else update_bubble n (\<lambda>b. b\<lparr>children := [Prose []]\<rparr>) (update_bubble n g st))
            = update_bubble n ?g1 st"
    using assms by (simp add: update_bubble_twice)
  show ?thesis
  proof (cases "truthy c")
    case True
    let ?h = "(\<lambda>b. b\<lparr>children := [Prose (acc @ text_of c)]\<rparr>) \<circ> ?g1"
    have "keeps_node ?h" using k1 by (simp add: keeps_node_def)
    moreover have "on_chunk c (TextTurn n x acc f, update_bubble n g st) =
        (TextTurn n x (acc @ text_of c) True, update_bubble n ?h st)"
      using True k1 by (simp add: Let_def s1 update_bubble_twice del: o_apply)
    ultimately show ?thesis by blast
  next
    case False
    then have "text_of c = []" by (cases c) (simp_all add: truthy_def text_of_def)
    with False have "on_chunk c (TextTurn n x acc f, update_bubble n g st) =
        (TextTurn n x (acc @ text_of c) True, update_bubble n ?g1 st)"
      by (simp add: Let_def s1)
    with k1 show ?thesis by blast
  qed
qed

lemma run_chunks_text:
  assumes "keeps_node g"
  shows "\<exists>h f'. keeps_node h \<and>
           run_chunks cs (TextTurn n x acc f, update_bubble n g st) =
             (TextTurn n x (acc @ concat (map text_of cs)) f', update_bubble n h st)"
  using assms
proof (induction cs arbitrary: acc f g)
  case Nil
  then show ?case by auto
next
  case (Cons c cs)
  from on_chunk_text[OF Cons.prems] obtain h where h: "keeps_node h"
    "on_chunk c (TextTurn n x acc f, update_bubble n g st) =
       (TextTurn n x (acc @ text_of c) True, update_bubble n h st)" by blast
  from Cons.IH[OF h(1), of "acc @ text_of c" True] h(2) show ?case by simp
qed

lemma filter_map_keeps_node:
  "keeps_node g \<Longrightarrow>
     filter (\<lambda>b. node b \<noteq> n) (map (\<lambda>b. if node b = n then g b else b) xs) =
     filter (\<lambda>b. node b \<noteq> n) xs"
  by (induction xs) (auto simp: keeps_node_def)

lemma filter_update_bubble:
  "keeps_node g \<Longrightarrow>
     filter (\<lambda>b. node b \<noteq> n) (chatContainer (update_bubble n g st)) =
     filter (\<lambda>b. node b \<noteq> n) (chatContainer st)"
  by (simp add: update_bubble_def filter_map_keeps_node)

lemma handleTextMessage_catch_fields [simp]:
  "API_KEY (handleTextMessage_catch e n st) = API_KEY st"
  "messageInput_value (handleTextMessage_catch e n st) = messageInput_value st"
  "now (handleTextMessage_catch e n st) = now st"
  "chat (handleTextMessage_catch e n st) = chat st"
  "next_node (handleTextMessage_catch e n st) = Suc (next_node st)"
  "loadChatHistory (handleTextMessage_catch e n st) =
     loadChatHistory st @
       [model_message ''err-text'' (now st)
          (Some (error_message_of e ''Could not get a response from the AI.'')) None None
          (Some True)]"
  by (simp_all add: handleTextMessage_catch_def Let_def loadChatHistory_def)

lemma handleTextMessage_finish_store:
  "loadChatHistory (handleTextMessage_finish n acc st) =
     loadChatHistory st @ [model_message ''ai'' (now st) (Some (final_text acc)) None None None]"
proof -
  from formatAndDisplayAIResponse_total obtain segs where
    "formatAndDisplayAIResponse (final_text acc) = Inr segs" by blast
  then show ?thesis by (simp add: handleTextMessage_finish_def Let_def)
qed

lemma handleTextMessage_resume_store:
  "\<exists>m. loadChatHistory (handleTextMessage_resume s (TextTurn n x acc f, st)) =
          loadChatHistory st @ [m] \<and>
        role m = Model \<and> (is_text_message m \<or> is_error_message m)"
proof -
  obtain cs r where s: "s = Stream cs r" by (cases s)
  have "keeps_node (\<lambda>b. b)" by (simp add: keeps_node_def)
  from run_chunks_text[OF this, of cs n x acc f st] obtain h f' where
    h: "run_chunks cs (TextTurn n x acc f, st) =
          (TextTurn n x (acc @ concat (map text_of cs)) f', update_bubble n h st)"
    by (auto simp: update_bubble_id)
  show ?thesis
  proof (cases r)
    case None
    with s h show ?thesis
      by (simp add: handleTextMessage_finish_store model_message_def is_text_message_def
            final_text_truthy is_error_def)
  next
    case (Some e)
    with s h show ?thesis
      by (simp add: model_message_def is_error_message_def is_error_def)
  qed
qed

definition image_step_ok :: "page \<Rightarrow> page \<times> StoredMessage \<Rightarrow> bool" where
  "image_step_ok st r =
     (loadChatHistory (fst r) = loadChatHistory st \<and> role (snd r) = Model \<and>
      (is_image_message (snd r) \<or> is_error_message (snd r)))"

lemma image_caught_ok: "image_step_ok st (image_caught e n st)"
  by (simp add: image_step_ok_def image_caught_def Let_def model_message_def
        is_error_message_def is_error_def)

lemma image_missing_ok: "image_step_ok st (image_missing n st)"
  by (simp add: image_step_ok_def image_missing_def Let_def model_message_def
        is_error_message_def is_error_def)

lemma image_success_ok: "image_step_ok st (image_success bytes n prompt st)"
  by (simp add: image_step_ok_def image_success_def Let_def model_message_def
        is_image_message_def is_error_def truthy_def)

lemma handleImageGeneration_resume_store:
  "\<exists>m. loadChatHistory (handleImageGeneration_resume outcome n prompt st) =
          loadChatHistory st @ [m] \<and>
        role m = Model \<and> (is_image_message m \<or> is_error_message m)"
proof -
  let ?r = "case outcome of
               ImageFailure e \<Rightarrow> image_caught e n st
             | ImageResponse None \<Rightarrow> image_missing n st
             | ImageResponse (Some []) \<Rightarrow> image_caught (type_error ''image'') n st
             | ImageResponse (Some (first # others)) \<Rightarrow>
                 if truthy first then image_success (text_of first) n prompt st
                 else image_missing n st"
  have "image_step_ok st ?r"
  proof (cases outcome)
    case (ImageFailure e)
    then show ?thesis by (simp add: image_caught_ok)
  next
    case (ImageResponse generatedImages)
    show ?thesis
    proof (cases generatedImages)
      case None
      with ImageResponse show ?thesis by (simp add: image_missing_ok)
    next
      case (Some entries)
      with ImageResponse show ?thesis
        by (cases entries) (simp_all add: image_caught_ok image_missing_ok image_success_ok)
    qed
  qed
  moreover obtain st1 m where r: "?r = (st1, m)" by force
  ultimately have "loadChatHistory st1 = loadChatHistory st" "role m = Model"
    "is_image_message m \<or> is_error_message m"
    by (simp_all add: image_step_ok_def)
  moreover have "handleImageGeneration_resume outcome n prompt st =
      saveMessageToHistory m (update_bubble n (\<lambda>b. b\<lparr>data_message_id := msg_id m\<rparr>) st1)"
    unfolding handleImageGeneration_resume_def r by simp
  ultimately show ?thesis by simp
qed

lemma handleTextMessage_catch_container:
  "chatContainer (handleTextMessage_catch e n st) =
     filter (\<lambda>b. node b \<noteq> n) (chatContainer st) @
       [\<lparr>node = next_node st, data_message_id = MessageId ''err-text'' (now st),
         bubble_role = Model, message_error = True,
         children = message_children
           (model_message ''err-text'' (now st)
              (Some (error_message_of e ''Could not get a response from the AI.'')) None None
              (Some True))\<rparr>]"
  by (simp add: handleTextMessage_catch_def Let_def model_message_def is_error_def)

text \<open>The page and the pending turn that an accepted submission leaves.\<close>

definition user_bubble :: "string \<Rightarrow> page \<Rightarrow> bubble" where
  "user_bubble u st =
     \<lparr>node = next_node st, data_message_id = MessageId ''user'' (now st), bubble_role = User,
       message_error = False, children = [Prose u]\<rparr>"

definition thinking_bubble :: "page \<Rightarrow> bubble" where
  "thinking_bubble st =
     \<lparr>node = Suc (next_node st), data_message_id = MessageId ''ai-thinking'' (now st),
       bubble_role = Model, message_error = False,
       children = [Prose ''<i>AI is thinking...</i>'']\<rparr>"

lemma handleSendMessage_start_text:
  assumes "truthy (API_KEY st)" and "trim (messageInput_value st) = u" and "u \<noteq> []"
    and "classify u = TextRequest x"
  shows "handleSendMessage_start st =
           (st\<lparr>messageInput_value := [], messageInput_disabled := True,
               sendButton_disabled := True, statusMessage := ''AI is thinking...'',
               chatContainer := chatContainer st @ [user_bubble u st, thinking_bubble st],
               localStorage := Some (loadChatHistory st @ [user_message u (now st)]),
               next_node := Suc (Suc (next_node st))\<rparr>,
            Some (TextTurn (Suc (next_node st)) x [] False))"
  using assms
  by (simp add: handleSendMessage_start_def Let_def handleTextMessage_start_def
        createMessageDiv_def appendChild_def addMessageToChat_def saveMessageToHistory_def
        setLoading_def user_message_def message_children_def truthy_def text_of_def
        is_error_def model_message_def user_bubble_def thinking_bubble_def loadChatHistory_def)

lemma handleSendMessage_start_store:
  assumes "truthy (API_KEY st)" and "trim (messageInput_value st) = u" and "u \<noteq> []"
  shows "\<exists>st1 p. handleSendMessage_start st = (st1, Some p) \<and>
           loadChatHistory st1 = loadChatHistory st @ [user_message u (now st)]"
  using assms
  by (simp add: handleSendMessage_start_def Let_def handleTextMessage_start_def
        handleImageGeneration_start_def createMessageDiv_def appendChild_def
        loadChatHistory_def split: request.splits)

lemma handleSendMessage_resume_store:
  "\<exists>m. loadChatHistory (handleSendMessage_resume env p st) = loadChatHistory st @ [m] \<and>
        role m = Model \<and> (is_text_message m \<or> is_image_message m \<or> is_error_message m) \<and>
        \<not> sendButton_disabled (handleSendMessage_resume env p st) \<and>
        \<not> messageInput_disabled (handleSendMessage_resume env p st) \<and>
        statusMessage (handleSendMessage_resume env p st) = []"
proof (cases p)
  case (TextTurn n x acc f)
  from handleTextMessage_resume_store[of "text_stream env" n x acc f st] TextTurn
  show ?thesis by (auto simp: handleSendMessage_resume_def handleSendMessage_finally_def)
next
  case (ImageTurn n prompt)
  from handleImageGeneration_resume_store[of "image_result env" n prompt st] ImageTurn
  show ?thesis by (auto simp: handleSendMessage_resume_def handleSendMessage_finally_def)
qed

lemma user_message_simps [simp]:
  "role (user_message u t) = User" "textContent (user_message u t) = Some u"
  "isError (user_message u t) = None" "imageUrl (user_message u t) = None"
  by (simp_all add: user_message_def)

text \<open>What a text turn leaves in the store and in the chat container.\<close>

lemma handleSendMessage_text_turn:
  assumes "truthy (API_KEY st)" and "trim (messageInput_value st) = u" and "u \<noteq> []"
    and "classify u = TextRequest u" and "text_stream env = Stream chunks r"
  shows "\<exists>h f st1. keeps_node h \<and>
           loadChatHistory st1 = loadChatHistory st @ [user_message u (now st)] \<and>
           chatContainer st1 = chatContainer st @ [user_bubble u st, thinking_bubble st] \<and>
           now st1 = now st + elapsed env \<and> next_node st1 = Suc (Suc (next_node st)) \<and>
           handleSendMessage env st =
             handleSendMessage_finally None
               (handleTextMessage_end r
                  (TextTurn (Suc (next_node st)) u (concat (map text_of chunks)) f,
                   update_bubble (Suc (next_node st)) h st1))"
proof -
  let ?n = "Suc (next_node st)"
  let ?st1 = "st\<lparr>messageInput_value := [], messageInput_disabled := True,
               sendButton_disabled := True, statusMessage := ''AI is thinking...'',
               chatContainer := chatContainer st @ [user_bubble u st, thinking_bubble st],
               localStorage := Some (loadChatHistory st @ [user_message u (now st)]),
               next_node := Suc (Suc (next_node st)), now := now st + elapsed env\<rparr>"
  have "keeps_node (\<lambda>b. b)" by (simp add: keeps_node_def)
  from run_chunks_text[OF this, of chunks ?n u "[]" False ?st1] obtain h f where
    h: "keeps_node h"
       "run_chunks chunks (TextTurn ?n u [] False, ?st1) =
          (TextTurn ?n u (concat (map text_of chunks)) f, update_bubble ?n h ?st1)"
    by (auto simp: update_bubble_id)
  from handleSendMessage_start_text[OF assms(1-4)] assms(5) h(2)
  have "handleSendMessage env st =
          handleSendMessage_finally None
            (handleTextMessage_end r
               (TextTurn ?n u (concat (map text_of chunks)) f, update_bubble ?n h ?st1))"
    by (simp add: handleSendMessage_def handleSendMessage_resume_def)
  moreover have "loadChatHistory ?st1 = loadChatHistory st @ [user_message u (now st)]"
    by (simp add: loadChatHistory_def)
  ultimately show ?thesis using h(1)
    by (intro exI[of _ h] exI[of _ f] exI[of _ ?st1]) simp
qed

lemma handleSendMessage_finally_fields [simp]:
  "loadChatHistory (handleSendMessage_finally None st) = loadChatHistory st"
  "localStorage (handleSendMessage_finally None st) = localStorage st"
  "chatContainer (handleSendMessage_finally None st) = chatContainer st"
  by (simp_all add: handleSendMessage_finally_def)

lemma filter_fresh_nodes:
  "list_all (\<lambda>b. node b < k) xs \<Longrightarrow> filter (\<lambda>b. node b \<noteq> Suc k) xs = xs"
  by (induction xs) auto

subsection \<open>The page between the events\<close>

text \<open>
  The pages that the program can be in, each with the turns that are pending. The events
  are: the script has run, with a key or with the empty string for a key (with no key at
  all it stops before it registers a listener, and no event is handled); the user edits the text area, which a browser allows only
  while it is not disabled; \<^verbatim>\<open>handleSendMessage\<close> is called, by a click, by the Enter
  key or otherwise, whether the button is disabled or not; a chunk of a pending stream
  arrives; a pending stream ends or fails; a pending image request is answered; the user
  confirms \<^verbatim>\<open>clearChat\<close>; time passes.
\<close>

inductive reachable :: "page \<Rightarrow> pending list \<Rightarrow> bool" where
  booted: "key \<noteq> None \<Longrightarrow> reachable (boot key stored t) []"
| typing: "reachable st ps \<Longrightarrow> \<not> messageInput_disabled st \<Longrightarrow>
     reachable (st\<lparr>messageInput_value := v\<rparr>) ps"
| submit: "reachable st ps \<Longrightarrow> handleSendMessage_start st = (st', p) \<Longrightarrow>
     reachable st' (ps @ (case p of None \<Rightarrow> [] | Some turn \<Rightarrow> [turn]))"
| chunk: "reachable st ps \<Longrightarrow> TextTurn n x acc f \<in> set ps \<Longrightarrow>
     on_chunk c (TextTurn n x acc f, st) = (turn', st') \<Longrightarrow>
     reachable st' (turn' # remove1 (TextTurn n x acc f) ps)"
| stream_over: "reachable st ps \<Longrightarrow> TextTurn n x acc f \<in> set ps \<Longrightarrow>
     reachable (handleSendMessage_finally None (handleTextMessage_end r (TextTurn n x acc f, st)))
       (remove1 (TextTurn n x acc f) ps)"
| image_over: "reachable st ps \<Longrightarrow> ImageTurn n prompt \<in> set ps \<Longrightarrow>
     reachable (handleSendMessage_finally None (handleImageGeneration_resume outcome n prompt st))
       (remove1 (ImageTurn n prompt) ps)"
| cleared: "reachable st ps \<Longrightarrow> reachable (clearChat st) ps"
| tick: "reachable st ps \<Longrightarrow> reachable (st\<lparr>now := now st + d\<rparr>) ps"

text \<open>
  The flags of a page; \<open>turn_invariant\<close> ties them to the pending turns: the two
  \<^verbatim>\<open>disabled\<close> flags agree, they are set exactly while a turn is pending, at most one
  turn is pending, and while they are set the text area is blank and the key is present.
\<close>

definition flags :: "page \<Rightarrow> string option \<times> string \<times> bool \<times> bool" where
  "flags st = (API_KEY st, messageInput_value st, messageInput_disabled st, sendButton_disabled st)"

definition turn_invariant :: "page \<Rightarrow> pending list \<Rightarrow> bool" where
  "turn_invariant st ps =
     (messageInput_disabled st = sendButton_disabled st \<and>
      sendButton_disabled st = (ps \<noteq> []) \<and> length ps \<le> 1 \<and>
      (if sendButton_disabled st
       then trim (messageInput_value st) = [] \<and> truthy (API_KEY st) else True))"

lemma turn_invariant_flags:
  "flags st' = flags st \<Longrightarrow> turn_invariant st ps \<Longrightarrow> turn_invariant st' ps"
  by (simp add: flags_def turn_invariant_def)

lemma flags_addMessageToChat [simp]: "flags (addMessageToChat m st) = flags st"
  by (simp add: flags_def)

lemma flags_saveMessageToHistory [simp]: "flags (saveMessageToHistory m st) = flags st"
  by (simp add: flags_def)

lemma flags_update_bubble [simp]: "flags (update_bubble n g st) = flags st"
  by (simp add: flags_def)

lemma flags_replay: "flags (fst (replay history (st, g))) = flags st"
  by (induction history arbitrary: st g) simp_all

lemma flags_populate: "flags (populateChatFromHistory st) = flags st"
proof -
  obtain st1 g where r: "replay (loadChatHistory st) (st, []) = (st1, g)" by force
  with flags_replay[of "loadChatHistory st" st "[]"] have "flags st1 = flags st" by simp
  with r show ?thesis
    by (simp add: populateChatFromHistory_def initializeChat_def flags_def)
qed

lemma flags_boot: "flags (boot key stored t) = (key, [], False, False)"
  by (cases key) (simp_all add: boot_def Let_def flags_populate, simp_all add: flags_def)

lemma flags_clearChat: "flags (clearChat st) = flags st"
  by (simp add: clearChat_def initializeChat_def) (simp add: flags_def)

lemma flags_on_chunk: "on_chunk c (TextTurn n x acc f, st) = (turn', st') \<Longrightarrow> flags st' = flags st"
  by (auto simp: Let_def split: if_splits)

lemma trim_Nil [simp]: "trim [] = []"
  by (simp add: trim_def)

lemma handleSendMessage_start_cases:
  "handleSendMessage_start st = (st', p) \<Longrightarrow>
     (p = None \<and> flags st' = flags st) \<or>
     (p \<noteq> None \<and> truthy (API_KEY st) \<and> trim (messageInput_value st) \<noteq> [] \<and>
      flags st' = (API_KEY st, [], True, True))"
  by (auto simp: handleSendMessage_start_def Let_def handleTextMessage_start_def
        handleImageGeneration_start_def createMessageDiv_def appendChild_def flags_def
        split: if_splits request.splits)

lemma reachable_invariant: "reachable st ps \<Longrightarrow> turn_invariant st ps"
proof (induction rule: reachable.induct)
  case (booted key stored t)
  from flags_boot[of key stored t] show ?case by (simp add: turn_invariant_def flags_def)
next
  case (typing st ps v)
  then show ?case by (auto simp: turn_invariant_def)
next
  case (submit st ps st' p)
  from handleSendMessage_start_cases[OF submit.hyps(2)] show ?case
  proof
    assume "p = None \<and> flags st' = flags st"
    with submit.IH show ?thesis by (simp add: turn_invariant_flags)
  next
    assume a: "p \<noteq> None \<and> truthy (API_KEY st) \<and> trim (messageInput_value st) \<noteq> [] \<and>
      flags st' = (API_KEY st, [], True, True)"
    with submit.IH have "ps = []" by (auto simp: turn_invariant_def split: if_splits)
    with a show ?thesis by (auto simp: turn_invariant_def flags_def)
  qed
next
  case (chunk st ps n x acc f c turn' st')
  from chunk.IH chunk.hyps(2) have "ps = [TextTurn n x acc f]"
    by (cases ps) (auto simp: turn_invariant_def)
  with chunk.IH flags_on_chunk[OF chunk.hyps(3)] show ?case
    by (simp add: turn_invariant_def flags_def)
next
  case (stream_over st ps n x acc f r)
  from stream_over.IH stream_over.hyps(2) have "ps = [TextTurn n x acc f]"
    by (cases ps) (auto simp: turn_invariant_def)
  then show ?case by (simp add: turn_invariant_def handleSendMessage_finally_def)
next
  case (image_over st ps n prompt outcome)
  from image_over.IH image_over.hyps(2) have "ps = [ImageTurn n prompt]"
    by (cases ps) (auto simp: turn_invariant_def)
  then show ?case by (simp add: turn_invariant_def handleSendMessage_finally_def)
next
  case (cleared st ps)
  with flags_clearChat[of st] show ?case by (simp add: turn_invariant_flags)
next
  case (tick st ps d)
  then show ?case by (simp add: turn_invariant_def)
qed

subsection \<open>Fresh nodes\<close>

text \<open>
  On every page that the program can reach, the bubbles of the chat container have nodes
  below the next fresh one, so a new bubble is a new DOM object.
\<close>

definition fresh_nodes :: "page \<Rightarrow> bool" where
  "fresh_nodes st = list_all (\<lambda>b. node b < next_node st) (chatContainer st)"

lemma fresh_nodes_addMessageToChat: "fresh_nodes st \<Longrightarrow> fresh_nodes (addMessageToChat m st)"
  by (auto simp: fresh_nodes_def list_all_iff less_Suc_eq)

lemma fresh_nodes_saveMessageToHistory [simp]:
  "fresh_nodes (saveMessageToHistory m st) = fresh_nodes st"
  by (simp add: fresh_nodes_def)

lemma fresh_nodes_setLoading [simp]: "fresh_nodes (setLoading b t st) = fresh_nodes st"
  by (simp add: fresh_nodes_def)

lemma fresh_nodes_update_bubble:
  "keeps_node g \<Longrightarrow> fresh_nodes st \<Longrightarrow> fresh_nodes (update_bubble n g st)"
  by (auto simp: fresh_nodes_def update_bubble_def keeps_node_def list_all_iff)

lemma fresh_nodes_replay: "fresh_nodes st \<Longrightarrow> fresh_nodes (fst (replay history (st, g)))"
  by (induction history arbitrary: st g) (simp_all add: fresh_nodes_addMessageToChat)

lemma fresh_nodes_populate: "fresh_nodes st \<Longrightarrow> fresh_nodes (populateChatFromHistory st)"
proof -
  assume a: "fresh_nodes st"
  obtain st1 g where r: "replay (loadChatHistory st) (st, []) = (st1, g)" by force
  with fresh_nodes_replay[OF a, of "loadChatHistory st" "[]"] have "fresh_nodes st1" by simp
  with r show ?thesis
    by (simp add: populateChatFromHistory_def initializeChat_def fresh_nodes_def)
qed

lemma fresh_nodes_boot: "fresh_nodes (boot key stored t)"
proof -
  let ?st = "\<lparr>API_KEY = key, messageInput_value = [], messageInput_disabled = False,
              sendButton_disabled = False, statusMessage = [], chatContainer = [],
              localStorage = stored, chat = [], next_node = 0, now = t\<rparr>"
  have "fresh_nodes ?st" by (simp add: fresh_nodes_def)
  then show ?thesis
    by (cases key) (simp_all add: boot_def Let_def fresh_nodes_populate fresh_nodes_addMessageToChat)
qed

lemma fresh_nodes_clearChat: "fresh_nodes (clearChat st)"
proof -
  have "fresh_nodes (initializeChat [] (st\<lparr>chatContainer := [], localStorage := None\<rparr>))"
    by (simp add: fresh_nodes_def initializeChat_def)
  then show ?thesis unfolding clearChat_def by (rule fresh_nodes_addMessageToChat)
qed

lemma fresh_nodes_start:
  "handleSendMessage_start st = (st', p) \<Longrightarrow> fresh_nodes st \<Longrightarrow> fresh_nodes st'"
  by (auto simp: handleSendMessage_start_def Let_def handleTextMessage_start_def
        handleImageGeneration_start_def createMessageDiv_def appendChild_def
        fresh_nodes_def list_all_iff less_Suc_eq
        split: if_splits request.splits)

lemma fresh_nodes_on_chunk:
  "on_chunk c (TextTurn n x acc f, st) = (turn', st') \<Longrightarrow> fresh_nodes st \<Longrightarrow> fresh_nodes st'"
  by (auto simp: Let_def fresh_nodes_update_bubble keeps_node_def split: if_splits)

lemma fresh_nodes_catch: "fresh_nodes st \<Longrightarrow> fresh_nodes (handleTextMessage_catch e n st)"
proof -
  assume "fresh_nodes st"
  then have "fresh_nodes (st\<lparr>chatContainer := filter (\<lambda>b. node b \<noteq> n) (chatContainer st)\<rparr>)"
    by (auto simp: fresh_nodes_def list_all_iff)
  then show ?thesis
    by (simp add: handleTextMessage_catch_def Let_def fresh_nodes_addMessageToChat)
qed

lemma fresh_nodes_finish: "fresh_nodes st \<Longrightarrow> fresh_nodes (handleTextMessage_finish n acc st)"
  by (cases "formatAndDisplayAIResponse (final_text acc)")
     (simp_all add: handleTextMessage_finish_def Let_def fresh_nodes_catch
        fresh_nodes_update_bubble keeps_node_def)

lemma fresh_nodes_image:
  "fresh_nodes st \<Longrightarrow> fresh_nodes (handleImageGeneration_resume outcome n prompt st)"
proof -
  assume a: "fresh_nodes st"
  let ?r = "case outcome of
               ImageFailure e \<Rightarrow> image_caught e n st
             | ImageResponse None \<Rightarrow> image_missing n st
             | ImageResponse (Some []) \<Rightarrow> image_caught (type_error ''image'') n st
             | ImageResponse (Some (first # others)) \<Rightarrow>
                 if truthy first then image_success (text_of first) n prompt st
                 else image_missing n st"
  have "fresh_nodes (fst ?r)"
    using a
    by (auto simp: image_caught_def image_missing_def image_success_def Let_def
          fresh_nodes_update_bubble keeps_node_def
          split: image_outcome.splits option.splits list.splits)
  moreover obtain st1 m where r: "?r = (st1, m)" by force
  ultimately have "fresh_nodes st1" by simp
  then have "fresh_nodes (saveMessageToHistory m
      (update_bubble n (\<lambda>b. b\<lparr>data_message_id := msg_id m\<rparr>) st1))"
    by (simp add: fresh_nodes_update_bubble keeps_node_def)
  then show ?thesis unfolding handleImageGeneration_resume_def r by simp
qed

lemma reachable_fresh_nodes: "reachable st ps \<Longrightarrow> fresh_nodes st"
proof (induction rule: reachable.induct)
  case (booted key stored t)
  show ?case by (rule fresh_nodes_boot)
next
  case (typing st ps v)
  then show ?case by (simp add: fresh_nodes_def)
next
  case (submit st ps st' p)
  from fresh_nodes_start[OF submit.hyps(2) submit.IH] show ?case .
next
  case (chunk st ps n x acc f c turn' st')
  from fresh_nodes_on_chunk[OF chunk.hyps(3) chunk.IH] show ?case .
next
  case (stream_over st ps n x acc f r)
  then show ?case
    by (cases r) (simp_all add: handleSendMessage_finally_def fresh_nodes_finish fresh_nodes_catch)
next
  case (image_over st ps n prompt outcome)
  then show ?case by (simp add: handleSendMessage_finally_def fresh_nodes_image)
next
  case (cleared st ps)
  show ?case by (rule fresh_nodes_clearChat)
next
  case (tick st ps d)
  then show ?case by (simp add: fresh_nodes_def)
qed


section \<open>Rendering markdown: \<^verbatim>\<open>parseMarkdown\<close>\<close>

text \<open>
  \<^verbatim>\<open>text.replace(/<script\b[^<]*(?:(?!<\/script>)<[^<]*)*<\/script>/gi, '')\<close>.

  With the flag \<^verbatim>\<open>i\<close> two code units match when they have the same canonical form,
  their upper case; \<open>upper_char\<close> is \<^verbatim>\<open>toUpperCase\<close> on the code units below 256 that
  it maps to one such code unit. \<open>ci c\<close> matches the code units with the canonical form of
  \<open>c\<close>, and \<open>ci_word w\<close> a literal word. No other code unit has the canonical form of
  \<^verbatim>\<open><\<close>, so the class \<^verbatim>\<open>[^<]\<close> is the same with and without the flag.
\<close>

definition upper_char :: "char \<Rightarrow> char" where
  "upper_char c = (let n = (of_char c :: nat) in
     if (97 \<le> n \<and> n \<le> 122) \<or> (224 \<le> n \<and> n \<le> 254 \<and> n \<noteq> 247)
     then char_of (n - 32) else c)"

definition ci :: "char \<Rightarrow> rx" where
  "ci c = Chr (\<lambda>x. upper_char x = upper_char c)"

definition ci_word :: "string \<Rightarrow> rx" where
  "ci_word w = seq (map ci w)"

definition not_lt :: rx where
  "not_lt = Chr (\<lambda>c. c \<noteq> CHR ''<'')"

definition scriptRegex :: rx where
  "scriptRegex = seq
     [ci_word ''<script'', WordB, Star not_lt,
      Star (seq [NegLook (ci_word ''</script>''), ci CHR ''<'', Star not_lt]),
      ci_word ''</script>'']"

text \<open>
  \<^verbatim>\<open>String.prototype.replace\<close> with a global regular expression: every match from left
  to right is replaced; \<open>lastIndex\<close> is where the next search starts (one further after
  an empty match) and \<open>position\<close> the end of the last match, from where the text is copied.
\<close>

function replace_all :: "rx \<Rightarrow> string \<Rightarrow> string \<Rightarrow> nat \<Rightarrow> nat \<Rightarrow> string" where
  "replace_all r replacement s lastIndex position =
     (case regex_exec r s lastIndex of
        None \<Rightarrow> substring_from s position
      | Some m \<Rightarrow>
          substring s position (m_index m) @ replacement @
          replace_all r replacement s
            (if m_text m = [] then Suc (match_end m) else match_end m) (match_end m))"
  by pat_completeness auto
termination
proof (relation "measure (\<lambda>(r, replacement, s, lastIndex, position). Suc (length s) - lastIndex)")
  show "wf (measure (\<lambda>(r, replacement, s, lastIndex, position). Suc (length s) - lastIndex))"
    by simp
next
  fix r :: rx and replacement s :: string and lastIndex position :: nat and m
  assume a: "regex_exec r s lastIndex = Some m"
  then have "lastIndex \<le> length s" by (simp add: regex_exec_def split: if_splits)
  moreover from regex_exec_bounds(1)[OF a] have "lastIndex \<le> m_index m" .
  moreover have "m_text m \<noteq> [] \<Longrightarrow> m_index m < match_end m" by (simp add: match_end_def)
  moreover have "m_index m \<le> match_end m" by (simp add: match_end_def)
  ultimately show "((r, replacement, s, if m_text m = [] then Suc (match_end m) else match_end m,
          match_end m), (r, replacement, s, lastIndex, position))
        \<in> measure (\<lambda>(r, replacement, s, lastIndex, position). Suc (length s) - lastIndex)"
    by auto
qed

declare replace_all.simps [simp del]

definition sanitize :: "string \<Rightarrow> string" where
  "sanitize text = replace_all scriptRegex [] text 0 0"

text \<open>
  \<^verbatim>\<open>marked.parse\<close> is a library outside the sources: a parameter, which returns the HTML
  or throws. \<^verbatim>\<open>parseMarkdown\<close> returns its result; in the \<^verbatim>\<open>catch\<close> block it returns
  \<^verbatim>\<open>text\<close>, its own argument.
\<close>

definition parseMarkdown :: "(string \<Rightarrow> js_error + string) \<Rightarrow> string \<Rightarrow> js_error + string" where
  "parseMarkdown marked_parse text =
     (case marked_parse (sanitize text) of
        Inr html \<Rightarrow> Inr html
      | Inl e \<Rightarrow> Inr text)"


section \<open>Claims about the fence scan\<close>

text \<open>
  C2. Segmenting the text \<^verbatim>\<open>Here:\n```js\nconsole.log(1)\n```\ndone\<close> gives exactly
  three segments, in this order: the prose \<open>Here:\<close>, the code block tagged \<open>js\<close> with
  the content \<open>console.log(1)\<close>, and the prose \<open>done\<close>; by a direct call, and as the
  final text of a stream.
\<close>

theorem C2_example_segments:
  "formatAndDisplayAIResponse ''Here:\<newline>```js\<newline>console.log(1)\<newline>```\<newline>done''
     = Inr [Prose ''Here:'', Code ''js'' ''console.log(1)'', Prose ''done''] \<and>
   formatAndDisplayAIResponse
       (final_text ''Here:\<newline>```js\<newline>console.log(1)\<newline>```\<newline>done'')
     = Inr [Prose ''Here:'', Code ''js'' ''console.log(1)'', Prose ''done'']"
  by code_simp






text \<open>
  C5, as the code has it. For a text \<open>s\<close> that is not blank and in which every matched
  region has a tag and a content that is not blank, the segments cover \<open>s\<close>: \<open>s\<close> is the
  pieces of the segments (the text of a prose segment; the opening fence with the tag, the
  content and the closing fence of a code segment), in order and each code unit for code
  unit, with nothing but whitespace before, between and after them. The segments written
  back as text (\<open>render_source\<close>) are the same pieces laid out in the same way, so the two
  strings differ only in the whitespace around the pieces; and no piece begins or ends
  with whitespace, so that whitespace is exactly what the trimming took away.
\<close>

theorem C5_segments_cover:
  assumes "trim s \<noteq> []" and "list_all good_block (all_matches s 0)"
  shows "\<exists>segs. formatAndDisplayAIResponse s = Inr segs \<and>
           laid_out (concat (map pieces segs)) s \<and>
           laid_out (concat (map pieces segs)) (concat (map render_source segs)) \<and>
           list_all trimmed (concat (map pieces segs))"
proof -
  from scan_blocks_total obtain j acc' where sc: "scan_blocks s 0 (False, []) = Inr (j, acc')"
    by blast
  let ?acc1 = "if j < length s then add_prose (substring_from s j) acc' else acc'"
  from scan_blocks_laid[OF sc assms(2)] obtain mid segs where
    a: "s = mid @ drop j s" "snd acc' = segs" "laid_out (pcs segs) mid"
       "list_all trimmed (pcs segs)" by auto
  have "\<exists>segs2. snd ?acc1 = snd acc' @ segs2 \<and> laid_out (pcs segs2) (drop j s) \<and>
      list_all trimmed (pcs segs2)"
  proof (cases "j < length s")
    case True
    then show ?thesis by (simp add: add_prose_laid substring_from_def)
  next
    case False
    moreover have "laid_out (pcs []) []" "list_all trimmed (pcs [])"
      by (simp_all add: pcs_def laid_out.blank)
    ultimately show ?thesis by (intro exI[of _ "[]"]) simp
  qed
  then obtain segs2 where b: "snd ?acc1 = snd acc' @ segs2" "laid_out (pcs segs2) (drop j s)"
    "list_all trimmed (pcs segs2)" by blast
  from laid_out_append[OF a(3) b(2)] have "laid_out (pcs (segs @ segs2)) (mid @ drop j s)"
    by (simp only: pcs_append)
  with a(1,2) b(1) have l: "laid_out (pcs (snd ?acc1)) s" by simp
  from a(4) b(3) have "list_all trimmed (pcs (segs @ segs2))"
    by (simp only: pcs_append list_all_append)
  with a(2) b(1) have t: "list_all trimmed (pcs (snd ?acc1))" by simp
  have "unfilled (False, [])" by (simp add: unfilled_def)
  from scan_blocks_unfilled[OF sc this] have u: "unfilled ?acc1"
    by (simp add: unfilled_add_prose)
  have f: "fst ?acc1"
  proof (rule ccontr)
    assume "\<not> fst ?acc1"
    with u have "snd ?acc1 = []" unfolding unfilled_def by blast
    with l have "laid_out [] s" by (simp add: pcs_def)
    then have "strip_ws s = []" by (simp add: laid_out_Nil strip_ws_spaces)
    with assms(1) show False by (simp add: trim_Nil_iff)
  qed
  from sc f have "formatAndDisplayAIResponse s = Inr (snd ?acc1)"
    by (simp add: formatAndDisplayAIResponse_def Let_def)
  with l t render_source_laid[of "snd ?acc1"] show ?thesis unfolding pcs_def by blast
qed

theorem C5_cover_witness:
  "trim ''x ```py\<newline>y = 1\<newline>``` z'' \<noteq> [] \<and>
   list_all good_block (all_matches ''x ```py\<newline>y = 1\<newline>``` z'' 0) \<and>
   (\<exists>segs. formatAndDisplayAIResponse ''x ```py\<newline>y = 1\<newline>``` z'' = Inr segs \<and>
      laid_out (concat (map pieces segs)) ''x ```py\<newline>y = 1\<newline>``` z'' \<and>
      laid_out (concat (map pieces segs)) (concat (map render_source segs)) \<and>
      list_all trimmed (concat (map pieces segs)))"
proof -
  have a: "trim ''x ```py\<newline>y = 1\<newline>``` z'' \<noteq> []" by code_simp
  have b: "list_all good_block (all_matches ''x ```py\<newline>y = 1\<newline>``` z'' 0)" by code_simp
  from C5_segments_cover[OF a b] a b show ?thesis by blast
qed

text \<open>
  The claim as stated fails for texts with balanced fences: a fenced region whose content
  is blank is dropped, so its fence and tag are missing from the segments; a fence
  without a tag comes back tagged \<open>plaintext\<close>; and a blank text gives the marker of
  an empty response. In each case the segments written back differ from the text in more
  than whitespace.
\<close>

theorem C5_counterexample_dropped_block:
  "formatAndDisplayAIResponse ''see ```py\<newline>``` end'' = Inr [Prose ''see'', Prose ''end''] \<and>
   strip_ws (concat (map render_source [Prose ''see'', Prose ''end'']))
     \<noteq> strip_ws ''see ```py\<newline>``` end'' \<and>
   \<not> laid_out (concat (map pieces [Prose ''see'', Prose ''end''])) ''see ```py\<newline>``` end'' \<and>
   formatAndDisplayAIResponse ''```\<newline>x\<newline>```'' = Inr [Code ''plaintext'' ''x''] \<and>
   strip_ws (concat (map render_source [Code ''plaintext'' ''x'']))
     \<noteq> strip_ws ''```\<newline>x\<newline>```'' \<and>
   \<not> laid_out (concat (map pieces [Code ''plaintext'' ''x''])) ''```\<newline>x\<newline>```'' \<and>
   formatAndDisplayAIResponse '' '' = Inr [Prose ''<i>[AI gave an empty response]</i>''] \<and>
   strip_ws (concat (map render_source [Prose ''<i>[AI gave an empty response]</i>'']))
     \<noteq> strip_ws '' '' \<and>
   \<not> laid_out (concat (map pieces [Prose ''<i>[AI gave an empty response]</i>''])) '' ''"
proof -
  have 1: "formatAndDisplayAIResponse ''see ```py\<newline>``` end'' = Inr [Prose ''see'', Prose ''end'']"
    by code_simp
  have 2: "strip_ws (concat (map render_source [Prose ''see'', Prose ''end'']))
     \<noteq> strip_ws ''see ```py\<newline>``` end''" by code_simp
  have "strip_ws ''see ```py\<newline>``` end'' \<noteq>
      strip_ws (concat (concat (map pieces [Prose ''see'', Prose ''end''])))" by code_simp
  then have 3: "\<not> laid_out (concat (map pieces [Prose ''see'', Prose ''end''])) ''see ```py\<newline>``` end''"
    using laid_out_strip_ws by blast
  have 4: "formatAndDisplayAIResponse ''```\<newline>x\<newline>```'' = Inr [Code ''plaintext'' ''x'']"
    by code_simp
  have 5: "strip_ws (concat (map render_source [Code ''plaintext'' ''x'']))
     \<noteq> strip_ws ''```\<newline>x\<newline>```''" by code_simp
  have "strip_ws ''```\<newline>x\<newline>```'' \<noteq>
      strip_ws (concat (concat (map pieces [Code ''plaintext'' ''x''])))" by code_simp
  then have 6: "\<not> laid_out (concat (map pieces [Code ''plaintext'' ''x''])) ''```\<newline>x\<newline>```''"
    using laid_out_strip_ws by blast
  have 7: "formatAndDisplayAIResponse '' '' = Inr [Prose ''<i>[AI gave an empty response]</i>'']"
    by code_simp
  have 8: "strip_ws (concat (map render_source [Prose ''<i>[AI gave an empty response]</i>'']))
     \<noteq> strip_ws '' ''" by code_simp
  have "strip_ws '' '' \<noteq>
      strip_ws (concat (concat (map pieces [Prose ''<i>[AI gave an empty response]</i>''])))"
    by code_simp
  then have 9: "\<not> laid_out (concat (map pieces [Prose ''<i>[AI gave an empty response]</i>''])) '' ''"
    using laid_out_strip_ws by blast
  from 1 2 3 4 5 6 7 8 9 show ?thesis by blast
qed

section \<open>Claims about the controller\<close>

text \<open>An example page, with a key and a typed input, and example services.\<close>

definition demo_page :: "string \<Rightarrow> page" where
  "demo_page typed = (boot (Some ''key'') None 1000)\<lparr>messageInput_value := typed\<rparr>"

definition demo_service :: "js_error option \<Rightarrow> service" where
  "demo_service failure =
     \<lparr>text_stream = Stream [Some ''Hel'', None, Some ''lo''] failure,
      image_result = ImageResponse (Some [Some ''QUJD'']), elapsed = 250\<rparr>"

text \<open>The error message that the \<^verbatim>\<open>catch\<close> block of \<^verbatim>\<open>handleTextMessage\<close> stores.\<close>

definition stream_error_message :: "js_error \<Rightarrow> nat \<Rightarrow> StoredMessage" where
  "stream_error_message e t =
     model_message ''err-text'' t
       (Some (error_message_of e ''Could not get a response from the AI.'')) None None (Some True)"

text \<open>
  C1. A turn taken alone, on a page with an API key and an input that is not blank: when
  the turn is over, the store holds what it held before, then one user message with the
  trimmed input, then one model message, which is a text, an image or an error; the send
  button and the text area are enabled again and the status line is empty. This holds
  for every answer of the services: any chunks, a normal end or a failure of the stream,
  and any image response or failure.
\<close>

theorem C1_one_turn:
  assumes "truthy (API_KEY st)" and "trim (messageInput_value st) \<noteq> []"
  shows "\<exists>u m. loadChatHistory (handleSendMessage env st) = loadChatHistory st @ [u, m] \<and>
           role u = User \<and> textContent u = Some (trim (messageInput_value st)) \<and>
           is_text_message u \<and>
           role m = Model \<and> (is_text_message m \<or> is_image_message m \<or> is_error_message m) \<and>
           \<not> sendButton_disabled (handleSendMessage env st) \<and>
           \<not> messageInput_disabled (handleSendMessage env st) \<and>
           statusMessage (handleSendMessage env st) = []"
proof -
  let ?u = "user_message (trim (messageInput_value st)) (now st)"
  from handleSendMessage_start_store[OF assms(1) refl assms(2)] obtain st1 p where
    s: "handleSendMessage_start st = (st1, Some p)"
    and l: "loadChatHistory st1 = loadChatHistory st @ [?u]" by blast
  let ?st2 = "st1\<lparr>now := now st1 + elapsed env\<rparr>"
  have l2: "loadChatHistory ?st2 = loadChatHistory st @ [?u]"
    using l by (simp add: loadChatHistory_def)
  from s have h: "handleSendMessage env st = handleSendMessage_resume env p ?st2"
    by (simp add: handleSendMessage_def)
  from handleSendMessage_resume_store[of env p ?st2] obtain m where
    m: "loadChatHistory (handleSendMessage_resume env p ?st2) = loadChatHistory ?st2 @ [m]"
      "role m = Model" "is_text_message m \<or> is_image_message m \<or> is_error_message m"
      "\<not> sendButton_disabled (handleSendMessage_resume env p ?st2)"
      "\<not> messageInput_disabled (handleSendMessage_resume env p ?st2)"
      "statusMessage (handleSendMessage_resume env p ?st2) = []" by blast
  have "is_text_message ?u"
    using assms(2) by (simp add: is_text_message_def truthy_def is_error_def)
  with m l2 show ?thesis unfolding h
    by (intro exI[of _ ?u] exI[of _ m]) simp
qed

theorem C1_witness:
  "truthy (API_KEY (demo_page '' hi '')) \<and> trim (messageInput_value (demo_page '' hi '')) \<noteq> [] \<and>
   (\<exists>u m. loadChatHistory (handleSendMessage (demo_service None) (demo_page '' hi '')) =
             loadChatHistory (demo_page '' hi '') @ [u, m] \<and>
           role u = User \<and> textContent u = Some (trim (messageInput_value (demo_page '' hi ''))) \<and>
           is_text_message u \<and>
           role m = Model \<and> (is_text_message m \<or> is_image_message m \<or> is_error_message m) \<and>
           \<not> sendButton_disabled (handleSendMessage (demo_service None) (demo_page '' hi '')) \<and>
           \<not> messageInput_disabled (handleSendMessage (demo_service None) (demo_page '' hi '')) \<and>
           statusMessage (handleSendMessage (demo_service None) (demo_page '' hi '')) = [])"
proof -
  have a: "truthy (API_KEY (demo_page '' hi ''))" by code_simp
  have b: "trim (messageInput_value (demo_page '' hi '')) \<noteq> []" by code_simp
  from C1_one_turn[OF a b, of "demo_service None"] a b show ?thesis by blast
qed

text \<open>
  C6. With an API key, submitting \<open>generate image of a cat\<close> starts the image path with
  the prompt \<open>a cat\<close>, and submitting \<open>generate image of\<close> starts the text path with
  the whole input. In general the first keyword, in the order of the list, that the
  lower-cased input starts with decides: the rest of the input after it, trimmed, is the
  prompt, and an empty rest sends the whole input down the text path.
\<close>

theorem C6_dispatch:
  "truthy (API_KEY st) \<Longrightarrow>
    (messageInput_value st = ''generate image of a cat'' \<longrightarrow>
       snd (handleSendMessage_start st) = Some (ImageTurn (Suc (next_node st)) ''a cat'')) \<and>
    (messageInput_value st = ''generate image of'' \<longrightarrow>
       snd (handleSendMessage_start st) =
         Some (TextTurn (Suc (next_node st)) ''generate image of'' [] False)) \<and>
    classify u =
      (case find (\<lambda>k. startsWith (toLowerCase u) k) IMAGE_GENERATION_KEYWORDS of
         None \<Rightarrow> TextRequest u
       | Some k \<Rightarrow> if trim (drop (length k) u) = [] then TextRequest u
                   else ImageRequest (trim (drop (length k) u)))"
proof (intro conjI impI)
  assume k: "truthy (API_KEY st)" and v: "messageInput_value st = ''generate image of a cat''"
  have t: "trim ''generate image of a cat'' = ''generate image of a cat''" by code_simp
  from handleSendMessage_start_accepted[OF k] v t classify_cat
  show "snd (handleSendMessage_start st) = Some (ImageTurn (Suc (next_node st)) ''a cat'')"
    by simp
next
  assume k: "truthy (API_KEY st)" and v: "messageInput_value st = ''generate image of''"
  have t: "trim ''generate image of'' = ''generate image of''" by code_simp
  from handleSendMessage_start_accepted[OF k] v t classify_bare
  show "snd (handleSendMessage_start st) =
          Some (TextTurn (Suc (next_node st)) ''generate image of'' [] False)"
    by simp
next
  show "classify u =
      (case find (\<lambda>k. startsWith (toLowerCase u) k) IMAGE_GENERATION_KEYWORDS of
         None \<Rightarrow> TextRequest u
       | Some k \<Rightarrow> if trim (drop (length k) u) = [] then TextRequest u
                   else ImageRequest (trim (drop (length k) u)))"
    by (rule classify_find)
qed

theorem C6_witness:
  "truthy (API_KEY (demo_page ''generate image of a cat'')) \<and>
   snd (handleSendMessage_start (demo_page ''generate image of a cat'')) =
     Some (ImageTurn (Suc (next_node (demo_page ''generate image of a cat''))) ''a cat'') \<and>
   truthy (API_KEY (demo_page ''generate image of'')) \<and>
   snd (handleSendMessage_start (demo_page ''generate image of'')) =
     Some (TextTurn (Suc (next_node (demo_page ''generate image of''))) ''generate image of'' [] False)"
proof -
  have a: "truthy (API_KEY (demo_page ''generate image of a cat''))" by code_simp
  have b: "truthy (API_KEY (demo_page ''generate image of''))" by code_simp
  have c: "messageInput_value (demo_page ''generate image of a cat'') = ''generate image of a cat''"
    by (simp add: demo_page_def)
  have d: "messageInput_value (demo_page ''generate image of'') = ''generate image of''"
    by (simp add: demo_page_def)
  from C6_dispatch[OF a] C6_dispatch[OF b] a b c d show ?thesis by blast
qed

text \<open>
  C7. A text turn whose stream fails, before or after any number of chunks, on a page
  whose bubbles have nodes below the next fresh one (\<open>fresh_nodes\<close>, which holds on
  every page that the program can reach). When the turn is over the store holds
  its old messages, the user message and one error message, whose text is the failure's
  message; the chat container holds its old bubbles, the user bubble and a new bubble, on a
  fresh node, for that error. Neither depends on the chunks: the accumulated text is in
  no message and no bubble, and the bubble that showed it (the node after the user
  bubble's) is no longer in the container.
\<close>

theorem C7_stream_failure:
  assumes "truthy (API_KEY st)" and "trim (messageInput_value st) = u" and "u \<noteq> []"
    and "classify u = TextRequest u" and "text_stream env = Stream chunks (Some e)"
    and "fresh_nodes st"
  shows "loadChatHistory (handleSendMessage env st) =
           loadChatHistory st @
             [user_message u (now st), stream_error_message e (now st + elapsed env)] \<and>
         chatContainer (handleSendMessage env st) =
           chatContainer st @
             [user_bubble u st,
              \<lparr>node = Suc (Suc (next_node st)),
                data_message_id = MessageId ''err-text'' (now st + elapsed env),
                bubble_role = Model, message_error = True,
                children = message_children (stream_error_message e (now st + elapsed env))\<rparr>] \<and>
         list_all (\<lambda>b. node b \<noteq> node (thinking_bubble st))
           (chatContainer (handleSendMessage env st))"
proof -
  let ?n = "Suc (next_node st)"
  from handleSendMessage_text_turn[OF assms(1-5)] obtain h f st1 where
    k: "keeps_node h"
    and l: "loadChatHistory st1 = loadChatHistory st @ [user_message u (now st)]"
    and c: "chatContainer st1 = chatContainer st @ [user_bubble u st, thinking_bubble st]"
    and t: "now st1 = now st + elapsed env" and nn: "next_node st1 = Suc (Suc (next_node st))"
    and r: "handleSendMessage env st =
              handleSendMessage_finally None
                (handleTextMessage_catch e ?n (update_bubble ?n h st1))"
    by auto
  have store: "loadChatHistory (handleSendMessage env st) =
      loadChatHistory st @
        [user_message u (now st), stream_error_message e (now st + elapsed env)]"
    unfolding r by (simp add: l t stream_error_message_def)
  have "filter (\<lambda>b. node b \<noteq> ?n) (chatContainer st1) = chatContainer st @ [user_bubble u st]"
    using filter_fresh_nodes[OF assms(6)[unfolded fresh_nodes_def]]
    by (simp add: c user_bubble_def thinking_bubble_def)
  then have cont: "chatContainer (handleSendMessage env st) =
      chatContainer st @
        [user_bubble u st,
         \<lparr>node = Suc (Suc (next_node st)),
           data_message_id = MessageId ''err-text'' (now st + elapsed env),
           bubble_role = Model, message_error = True,
           children = message_children (stream_error_message e (now st + elapsed env))\<rparr>]"
    unfolding r
    by (simp add: handleTextMessage_catch_container filter_update_bubble[OF k] t nn
          stream_error_message_def)
  have "list_all (\<lambda>b. node b \<noteq> ?n) (chatContainer st)"
    using assms(6) by (auto simp: fresh_nodes_def list_all_iff)
  then have "list_all (\<lambda>b. node b \<noteq> node (thinking_bubble st))
      (chatContainer (handleSendMessage env st))"
    by (simp add: cont thinking_bubble_def user_bubble_def)
  with store cont show ?thesis by blast
qed

theorem C7_witness:
  "truthy (API_KEY (demo_page ''hi'')) \<and> trim (messageInput_value (demo_page ''hi'')) = ''hi'' \<and>
   classify ''hi'' = TextRequest ''hi'' \<and>
   text_stream (demo_service (Some (JsError ''network down''))) =
     Stream [Some ''Hel'', None, Some ''lo''] (Some (JsError ''network down'')) \<and>
   fresh_nodes (demo_page ''hi'') \<and>
   loadChatHistory (handleSendMessage (demo_service (Some (JsError ''network down''))) (demo_page ''hi'')) =
     loadChatHistory (demo_page ''hi'') @
       [user_message ''hi'' (now (demo_page ''hi'')),
        stream_error_message (JsError ''network down'')
          (now (demo_page ''hi'') + elapsed (demo_service (Some (JsError ''network down''))))] \<and>
   list_all (\<lambda>b. node b \<noteq> node (thinking_bubble (demo_page ''hi'')))
     (chatContainer (handleSendMessage (demo_service (Some (JsError ''network down''))) (demo_page ''hi'')))"
proof -
  have a: "truthy (API_KEY (demo_page ''hi''))" by code_simp
  have b: "trim (messageInput_value (demo_page ''hi'')) = ''hi''" by code_simp
  have c: "''hi'' \<noteq> []" by simp
  have d: "classify ''hi'' = TextRequest ''hi''" by code_simp
  have e: "text_stream (demo_service (Some (JsError ''network down''))) =
     Stream [Some ''Hel'', None, Some ''lo''] (Some (JsError ''network down''))"
    by (simp add: demo_service_def)
  have f: "fresh_nodes (demo_page ''hi'')" by code_simp
  from C7_stream_failure[OF a b c d e f] a b d e f show ?thesis by blast
qed

text \<open>
  C8. \<^verbatim>\<open>populateChatFromHistory\<close> seeds the chat session with the stored messages that
  have a text and are not errors, in their stored order, each as its role and text. In
  particular: after a turn with the input \<open>hi\<close> whose stream ends normally, a page booted
  from the store has a context that is the old context, then the user's \<open>hi\<close>, then the
  model's reply as it was stored (the accumulated text, trimmed, or the empty-response
  marker).
\<close>

theorem C8_replay_context:
  "chat (populateChatFromHistory st) = map to_content (filter in_context (loadChatHistory st)) \<and>
   (truthy (API_KEY st) \<and> messageInput_value st = ''hi'' \<and> text_stream env = Stream chunks None \<longrightarrow>
      chat (boot (API_KEY st) (localStorage (handleSendMessage env st)) t) =
        map to_content (filter in_context (loadChatHistory st)) @
          [Content User ''hi'', Content Model (final_text (concat (map text_of chunks)))])"
proof (intro conjI impI)
  show "chat (populateChatFromHistory st) = map to_content (filter in_context (loadChatHistory st))"
    by (rule populate_chat)
next
  assume a: "truthy (API_KEY st) \<and> messageInput_value st = ''hi'' \<and> text_stream env = Stream chunks None"
  let ?acc = "concat (map text_of chunks)"
  let ?final = "model_message ''ai'' (now st + elapsed env) (Some (final_text ?acc)) None None None"
  have t: "trim ''hi'' = ''hi''" by code_simp
  have c: "classify ''hi'' = TextRequest ''hi''" by code_simp
  from a t have "trim (messageInput_value st) = ''hi''" by simp
  from handleSendMessage_text_turn[OF _ this _ c, of env chunks None] a
  obtain h f st1 where
    l: "loadChatHistory st1 = loadChatHistory st @ [user_message ''hi'' (now st)]"
    and n: "now st1 = now st + elapsed env"
    and r: "handleSendMessage env st =
              handleSendMessage_finally None
                (handleTextMessage_finish (Suc (next_node st)) ?acc
                   (update_bubble (Suc (next_node st)) h st1))"
    by auto
  have store: "loadChatHistory (handleSendMessage env st) =
      loadChatHistory st @ [user_message ''hi'' (now st), ?final]"
    unfolding r by (simp add: handleTextMessage_finish_store l n)
  have u: "in_context (user_message ''hi'' (now st))"
    by (simp add: in_context_def truthy_def is_error_def)
  have m: "in_context ?final"
    using final_text_truthy[of ?acc] by (simp add: in_context_def model_message_def is_error_def)
  have "chat (boot (API_KEY st) (localStorage (handleSendMessage env st)) t) =
      map to_content (filter in_context (loadChatHistory (handleSendMessage env st)))"
    using a by (simp add: boot_chat loadChatHistory_def)
  also have "\<dots> = map to_content (filter in_context (loadChatHistory st)) @
      [to_content (user_message ''hi'' (now st)), to_content ?final]"
    by (simp add: store u m)
  finally show "chat (boot (API_KEY st) (localStorage (handleSendMessage env st)) t) =
        map to_content (filter in_context (loadChatHistory st)) @
          [Content User ''hi'', Content Model (final_text (concat (map text_of chunks)))]"
    by (simp add: to_content_def model_message_def text_of_def)
qed

theorem C8_witness:
  "truthy (API_KEY (demo_page ''hi'')) \<and> messageInput_value (demo_page ''hi'') = ''hi'' \<and>
   text_stream (demo_service None) = Stream [Some ''Hel'', None, Some ''lo''] None \<and>
   chat (boot (API_KEY (demo_page ''hi''))
           (localStorage (handleSendMessage (demo_service None) (demo_page ''hi''))) 2000) =
     map to_content (filter in_context (loadChatHistory (demo_page ''hi''))) @
       [Content User ''hi'',
        Content Model (final_text (concat (map text_of [Some ''Hel'', None, Some ''lo''])))]"
proof -
  have a: "truthy (API_KEY (demo_page ''hi''))" by code_simp
  have b: "messageInput_value (demo_page ''hi'') = ''hi''" by (simp add: demo_page_def)
  have c: "text_stream (demo_service None) = Stream [Some ''Hel'', None, Some ''lo''] None"
    by (simp add: demo_service_def)
  from C8_replay_context[of "demo_page ''hi''" "demo_service None" "[Some ''Hel'', None, Some ''lo'']" 2000]
    a b c show ?thesis by blast
qed

text \<open>
  A page on which a turn is pending, with a text in its text area: the page that the
  submit of \<open>hi\<close> leaves, its text area then set to \<open>again\<close> (by a script; a user cannot
  edit a disabled text area).
\<close>

definition busy_page :: page where
  "busy_page = (fst (handleSendMessage_start (demo_page ''hi'')))\<lparr>messageInput_value := ''again''\<rparr>"

text \<open>
  C9, as the code has it. \<^verbatim>\<open>handleSendMessage\<close> does not test whether a turn is
  pending: what keeps a second turn from starting is that \<^verbatim>\<open>setLoading\<close> disables the
  send button and the text area, and that the text area was cleared at submit.

  \<^item> On every page that the events of the page lead to, while a turn is pending or the
    send button is disabled, a call of \<^verbatim>\<open>handleSendMessage\<close> returns at once: the page
    stays as it is, so no bubble is created and the store is unchanged, and no turn is
    started. At most one turn is pending.
  \<^item> On any page with a key, busy or not, a call with a text area that is not blank
    appends the user message to the store and starts a turn, and a call with a blank
    text area changes nothing.
\<close>

theorem C9_submit_while_busy:
  "(reachable st ps \<and> (ps \<noteq> [] \<or> sendButton_disabled st) \<longrightarrow>
      handleSendMessage_start st = (st, None) \<and> length ps \<le> 1) \<and>
   (truthy (API_KEY st) \<and> trim (messageInput_value st) \<noteq> [] \<longrightarrow>
      (\<exists>st' turn. handleSendMessage_start st = (st', Some turn) \<and>
         loadChatHistory st' =
           loadChatHistory st @ [user_message (trim (messageInput_value st)) (now st)])) \<and>
   (truthy (API_KEY st) \<and> trim (messageInput_value st) = [] \<longrightarrow>
      handleSendMessage_start st = (st, None))"
proof -
  have 1: "handleSendMessage_start st = (st, None) \<and> length ps \<le> 1"
    if a: "reachable st ps \<and> (ps \<noteq> [] \<or> sendButton_disabled st)"
  proof -
    from a have "turn_invariant st ps" by (simp add: reachable_invariant)
    with a have "truthy (API_KEY st)" "trim (messageInput_value st) = []" "length ps \<le> 1"
      by (auto simp: turn_invariant_def split: if_splits)
    then show ?thesis by (simp add: handleSendMessage_start_def)
  qed
  have 2: "\<exists>st' turn. handleSendMessage_start st = (st', Some turn) \<and>
         loadChatHistory st' =
           loadChatHistory st @ [user_message (trim (messageInput_value st)) (now st)]"
    if "truthy (API_KEY st) \<and> trim (messageInput_value st) \<noteq> []"
    using that handleSendMessage_start_store[of st "trim (messageInput_value st)"] by simp
  have 3: "handleSendMessage_start st = (st, None)"
    if "truthy (API_KEY st) \<and> trim (messageInput_value st) = []"
    using that by (simp add: handleSendMessage_start_def)
  from 1 2 3 show ?thesis by blast
qed

theorem C9_witness:
  "reachable (fst (handleSendMessage_start (demo_page ''hi''))) [TextTurn 1 ''hi'' [] False] \<and>
   sendButton_disabled (fst (handleSendMessage_start (demo_page ''hi''))) \<and>
   truthy (API_KEY (fst (handleSendMessage_start (demo_page ''hi'')))) \<and>
   trim (messageInput_value (fst (handleSendMessage_start (demo_page ''hi'')))) = [] \<and>
   handleSendMessage_start (fst (handleSendMessage_start (demo_page ''hi''))) =
     (fst (handleSendMessage_start (demo_page ''hi'')), None) \<and>
   truthy (API_KEY busy_page) \<and> trim (messageInput_value busy_page) \<noteq> [] \<and>
   (\<exists>st' turn. handleSendMessage_start busy_page = (st', Some turn) \<and>
      loadChatHistory st' =
        loadChatHistory busy_page @
          [user_message (trim (messageInput_value busy_page)) (now busy_page)])"
proof -
  let ?st = "fst (handleSendMessage_start (demo_page ''hi''))"
  have "reachable (boot (Some ''key'') None 1000) []" by (rule reachable.booted) simp
  moreover have "\<not> messageInput_disabled (boot (Some ''key'') None 1000)" by code_simp
  ultimately have "reachable (demo_page ''hi'') []"
    unfolding demo_page_def by (rule reachable.typing)
  moreover have "handleSendMessage_start (demo_page ''hi'') = (?st, Some (TextTurn 1 ''hi'' [] False))"
    by code_simp
  ultimately have r: "reachable ?st ([] @ (case Some (TextTurn 1 ''hi'' [] False) of
      None \<Rightarrow> [] | Some turn \<Rightarrow> [turn]))"
    by (rule reachable.submit)
  then have r': "reachable ?st [TextTurn 1 ''hi'' [] False]" by simp
  have d: "sendButton_disabled ?st" by code_simp
  have k: "truthy (API_KEY ?st)" by code_simp
  have e: "trim (messageInput_value ?st) = []" by code_simp
  have k2: "truthy (API_KEY busy_page)" by code_simp
  have t2: "trim (messageInput_value busy_page) \<noteq> []" by code_simp
  from C9_submit_while_busy[of ?st "[TextTurn 1 ''hi'' [] False]"] r' d
  have 1: "handleSendMessage_start ?st = (?st, None)" by simp
  from C9_submit_while_busy[of busy_page] k2 t2
  have 2: "\<exists>st' turn. handleSendMessage_start busy_page = (st', Some turn) \<and>
      loadChatHistory st' =
        loadChatHistory busy_page @
          [user_message (trim (messageInput_value busy_page)) (now busy_page)]"
    by blast
  from r' d k e 1 k2 t2 2 show ?thesis by blast
qed

text \<open>
  The claim as stated fails: on a page where the turn for \<open>hi\<close> is pending and the send
  button and the text area are disabled, a call of \<^verbatim>\<open>handleSendMessage\<close> with the text
  \<open>again\<close> in the text area stores a second user message and starts a second turn.
\<close>

theorem C9_counterexample_second_turn:
  "sendButton_disabled busy_page \<and> messageInput_disabled busy_page \<and>
   map textContent (loadChatHistory busy_page) = [Some ''hi''] \<and>
   snd (handleSendMessage_start busy_page) = Some (TextTurn 3 ''again'' [] False) \<and>
   map textContent (loadChatHistory (fst (handleSendMessage_start busy_page))) =
     [Some ''hi'', Some ''again''] \<and>
   length (chatContainer (fst (handleSendMessage_start busy_page))) =
     length (chatContainer busy_page) + 2"
  by code_simp

section \<open>Claims about \<^verbatim>\<open>parseMarkdown\<close>\<close>

text \<open>
  \<^verbatim>\<open>parseMarkdown\<close> never throws, and it consults the converter on the sanitized text
  only: two converters that agree there give the same result.
\<close>

lemma parseMarkdown_total: "\<exists>html. parseMarkdown marked_parse text = Inr html"
  by (cases "marked_parse (sanitize text)") (simp_all add: parseMarkdown_def)

lemma parseMarkdown_sanitized_input:
  "marked_parse (sanitize text) = other_parse (sanitize text) \<Longrightarrow>
     parseMarkdown marked_parse text = parseMarkdown other_parse text"
  by (simp add: parseMarkdown_def)

text \<open>
  C10 fails on the code. When the converter throws, the \<^verbatim>\<open>catch\<close> block returns the
  original text, not the sanitized one: for \<^verbatim>\<open><script>alert(1)</script>\<close>, whose
  sanitized text is empty, the result is the text with its script block. And one pass of
  the replacement can leave a script block made of the text around a removed one, which a
  converter that passes HTML through hands on.
\<close>

theorem C10_script_survives:
  "sanitize ''<script>alert(1)</script>'' = [] \<and>
   parseMarkdown (\<lambda>s. Inl (JsError ''parse failed'')) ''<script>alert(1)</script>''
     = Inr ''<script>alert(1)</script>'' \<and>
   parseMarkdown (\<lambda>s. Inr s) ''<scr<script></script>ipt>alert(1)</script>''
     = Inr ''<script>alert(1)</script>''"
  by code_simp

section \<open>Further properties\<close>

text \<open>
  X1. \<^verbatim>\<open>parseMarkdown\<close> never throws: whatever the converter does, and for every text,
  it returns a string.
\<close>

theorem X1_parseMarkdown_returns: "\<exists>html. parseMarkdown marked_parse text = Inr html"
  by (rule parseMarkdown_total)

text \<open>
  X2. \<^verbatim>\<open>formatAndDisplayAIResponse\<close> never throws and its loop terminates: every match
  of the fence expression is longer than zero, and group 2 takes part in every match, so
  \<^verbatim>\<open>match[2].trim()\<close> is always defined.
\<close>

theorem X2_format_returns: "\<exists>segs. formatAndDisplayAIResponse fullText = Inr segs"
  by (rule formatAndDisplayAIResponse_total)

text \<open>
  X3. When a stream completes with a text that is empty after trimming,
  \<^verbatim>\<open>handleTextMessage\<close> stores the bare marker \<open>[AI gave an empty response]\<close> and hands it
  to the scan, which shows it as one prose segment.
\<close>

theorem X3_blank_stream_marker:
  "trim x = [] \<Longrightarrow>
     final_text x = ''[AI gave an empty response]'' \<and>
     formatAndDisplayAIResponse (final_text x) = Inr [Prose ''[AI gave an empty response]'']"
  using format_empty_response by (simp add: final_text_def empty_response_def)

theorem X3_witness:
  "trim ''  '' = [] \<and> final_text ''  '' = ''[AI gave an empty response]'' \<and>
   formatAndDisplayAIResponse (final_text ''  '') = Inr [Prose ''[AI gave an empty response]'']"
proof -
  have a: "trim ''  '' = []" by code_simp
  from X3_blank_stream_marker[OF a] a show ?thesis by blast
qed

end
